theory Spec2Isabelle
  imports Complex_Main "HOL-Library.Word" "HOL-Library.AList"
begin

unbundle bit_operations_syntax

section \<open>Data model\<close>

text \<open>
  The program is Python 2 code (\<^verbatim>\<open>process\<close> indexes \<^verbatim>\<open>dict.keys()\<close>, and the line loop
  of \<^verbatim>\<open>start_byte\<close> ends on \<^verbatim>\<open>line != ''\<close>). A file is the list of its bytes; a byte and
  a character of decoded header text are both a \<^typ>\<open>char\<close>. Header text is the result of
  \<^verbatim>\<open>.decode()\<close> with the default ASCII codec, so every character of it is below 128.
\<close>

datatype value_error =
    NotANumber string   \<comment> \<open>numeric conversion of this text was rejected\<close>
  | Unpack              \<comment> \<open>\<^verbatim>\<open>nx, ny = ...\<close> on a vector that has not two components\<close>
  | Reshape             \<comment> \<open>\<^verbatim>\<open>reshape\<close> on a sample count that does not fit the shape\<close>

datatype error =
    UnhandledFileError string
  | FileHeaderNotFoundError string
  | IOError
  | UnicodeDecodeError
  | IndexError
  | KeyError string
  | AttributeError
  | TypeError
  | ValueError value_error

text \<open>The exception is an \<^verbatim>\<open>UnhandledFileError\<close>.\<close>

fun is_unhandled :: "error \<Rightarrow> bool" where
  "is_unhandled (UnhandledFileError m) = True"
| "is_unhandled _ = False"

type_synonym table = "(string \<times> string list) list"

datatype 'f hval =
    Str string
  | StrList "string list"
  | Table table
  | FloatV 'f
  | FloatVec "'f list"
  | IntVec "int list"

type_synonym 'f header = "(string \<times> 'f hval) list"

type_synonym grid = "32 word list list"

record chann_dict =
  forward :: grid
  backward :: grid

type_synonym signals = "(string \<times> chann_dict) list"

record 'f scan =
  datadir :: string
  basename :: string
  fname :: string
  filetype :: string
  byte_offset :: int
  header_raw :: string
  header :: "'f header"
  signals :: signals

section \<open>Text primitives of Python\<close>

abbreviation nl :: char where "nl \<equiv> CHR 0x0A"
abbreviation tb :: char where "tb \<equiv> CHR 0x09"

text \<open>Whitespace of a byte string: what \<^verbatim>\<open>str.strip()\<close> removes.\<close>

definition is_space_b :: "char \<Rightarrow> bool" where
  "is_space_b c = (c \<in> set [CHR 0x09, CHR 0x0A, CHR 0x0B, CHR 0x0C, CHR 0x0D, CHR 0x20])"

text \<open>Whitespace of decoded text: \<^verbatim>\<open>unicode.strip()\<close> and \<^verbatim>\<open>unicode.split()\<close> also take
  the separators 0x1C to 0x1F.\<close>

definition is_space_u :: "char \<Rightarrow> bool" where
  "is_space_u c = (is_space_b c \<or> c \<in> set [CHR 0x1C, CHR 0x1D, CHR 0x1E, CHR 0x1F])"

definition strip_by :: "(char \<Rightarrow> bool) \<Rightarrow> string \<Rightarrow> string" where
  "strip_by P s = rev (dropWhile P (rev (dropWhile P s)))"

definition lower_char :: "char \<Rightarrow> char" where
  "lower_char c = (let n = (of_char c :: nat) in if 65 \<le> n \<and> n \<le> 90 then char_of (n + 32) else c)"

definition lower :: "string \<Rightarrow> string" where
  "lower s = map lower_char s"

definition startswith_colon :: "string \<Rightarrow> bool" where
  "startswith_colon s = (case s of [] \<Rightarrow> False | c # _ \<Rightarrow> c = CHR '':'')"

text \<open>\<^verbatim>\<open>s.split(sep)\<close> with an explicit separator keeps empty fields.\<close>

fun split_on :: "char \<Rightarrow> string \<Rightarrow> string list" where
  "split_on sep [] = [[]]"
| "split_on sep (c # cs) =
     (if c = sep then [] # split_on sep cs
      else (let r = split_on sep cs in (c # hd r) # tl r))"

text \<open>\<^verbatim>\<open>s.split()\<close> without separator: the maximal runs of non-whitespace.\<close>

function split_ws :: "string \<Rightarrow> string list" where
  "split_ws s =
     (let s' = dropWhile is_space_u s
      in if s' = [] then []
         else takeWhile (\<lambda>c. \<not> is_space_u c) s' # split_ws (dropWhile (\<lambda>c. \<not> is_space_u c) s'))"
  by pat_completeness auto
termination
proof (relation "measure length")
  show "wf (measure length)" by simp
next
  fix s x
  assume x: "x = dropWhile is_space_u s" and ne: "x \<noteq> []"
  from ne have "\<not> is_space_u (hd x)"
    unfolding x by (rule hd_dropWhile)
  with ne have "dropWhile (\<lambda>c. \<not> is_space_u c) x = dropWhile (\<lambda>c. \<not> is_space_u c) (tl x)"
    by (cases x) simp_all
  then have "length (dropWhile (\<lambda>c. \<not> is_space_u c) x) \<le> length (tl x)"
    by (simp only: length_dropWhile_le)
  also from ne have "\<dots> < length x" by (cases x) simp_all
  also have "\<dots> \<le> length s" unfolding x by (rule length_dropWhile_le)
  finally show "(dropWhile (\<lambda>c. \<not> is_space_u c) x, s) \<in> measure length" by simp
qed

declare split_ws.simps [simp del]

text \<open>\<^verbatim>\<open>tag in s\<close>: \<open>tag\<close> occurs in \<open>s\<close> as a contiguous piece.\<close>

fun contains :: "string \<Rightarrow> string \<Rightarrow> bool" where
  "contains tag [] = (tag = [])"
| "contains tag (c # cs) = (take (length tag) (c # cs) = tag \<or> contains tag cs)"

definition ascii :: "string \<Rightarrow> bool" where
  "ascii bs = list_all (\<lambda>c. (of_char c :: nat) < 128) bs"

text \<open>\<^verbatim>\<open>bytes.decode()\<close> with the default codec.\<close>

definition decode :: "string \<Rightarrow> error + string" where
  "decode bs = (if ascii bs then Inr bs else Inl UnicodeDecodeError)"

text \<open>\<^verbatim>\<open>os.path.split\<close> on a POSIX path.\<close>

definition path_split :: "string \<Rightarrow> string \<times> string" where
  "path_split p =
     (let tail = rev (takeWhile (\<lambda>c. c \<noteq> CHR ''/'') (rev p));
          head = take (length p - length tail) p
      in (if head \<noteq> [] \<and> \<not> list_all (\<lambda>c. c = CHR ''/'') head
          then rev (dropWhile (\<lambda>c. c = CHR ''/'') (rev head)) else head, tail))"

text \<open>\<^verbatim>\<open>fname[-3:]\<close>: the last three characters, or all of a shorter name.\<close>

definition last3 :: "string \<Rightarrow> string" where
  "last3 s = drop (length s - 3) s"

section \<open>Files\<close>

text \<open>The file system maps a path to the bytes of the file there, if there is one.\<close>

type_synonym filesystem = "string \<Rightarrow> string option"

text \<open>One \<^verbatim>\<open>f.readline()\<close>: the line read, newline included, and what is left.\<close>

definition readline :: "string \<Rightarrow> string \<times> string" where
  "readline bs =
     (case dropWhile (\<lambda>c. c \<noteq> nl) bs of
        [] \<Rightarrow> (bs, [])
      | n # r \<Rightarrow> (takeWhile (\<lambda>c. c \<noteq> nl) bs @ [n], r))"

text \<open>The successive results of \<^verbatim>\<open>f.readline()\<close> up to the first empty one.\<close>

function file_lines :: "string \<Rightarrow> string list" where
  "file_lines bs = (if bs = [] then [] else fst (readline bs) # file_lines (snd (readline bs)))"
  by pat_completeness auto
termination
proof (relation "measure length")
  show "wf (measure length)" by simp
next
  fix bs :: string
  assume ne: "bs \<noteq> []"
  have "length (snd (readline bs)) < length bs"
  proof (cases "dropWhile (\<lambda>c. c \<noteq> nl) bs")
    case Nil
    have "readline bs = (bs, [])" unfolding readline_def Nil by simp
    with ne show ?thesis by simp
  next
    case (Cons n r)
    have "length (dropWhile (\<lambda>c. c \<noteq> nl) bs) \<le> length bs"
      by (rule length_dropWhile_le)
    moreover have "snd (readline bs) = r" unfolding readline_def Cons by simp
    ultimately show ?thesis unfolding Cons by simp
  qed
  then show "(snd (readline bs), bs) \<in> measure length" by simp
qed

declare file_lines.simps [simp del]

section \<open>NanonisFile\<close>

definition end_tags :: "string \<Rightarrow> string option" where
  "end_tags = map_of [(''grid'', '':HEADER_END:''), (''scan'', ''SCANIT_END''), (''spec'', ''[DATA]'')]"

definition determine_filetype :: "string \<Rightarrow> error + string" where
  "determine_filetype name =
     (if last3 name = ''3ds'' then Inr ''grid''
      else if last3 name = ''sxm'' then Inr ''scan''
      else if last3 name = ''dat'' then Inr ''spec''
      else Inl (UnhandledFileError
                  (snd (path_split name) @ '' is not a supported filetype or does not exist'')))"

text \<open>The \<^verbatim>\<open>while\<close> loop of \<^verbatim>\<open>start_byte\<close> over the lines read; \<open>pos\<close> is \<^verbatim>\<open>f.tell()\<close>
  before the line, the result is \<^verbatim>\<open>byte_offset\<close> after the loop.\<close>

fun find_tag :: "string \<Rightarrow> nat \<Rightarrow> string list \<Rightarrow> error + int" where
  "find_tag tag pos [] = Inr (- 1)"
| "find_tag tag pos (line # ls) =
     (case decode (strip_by is_space_b line) of
        Inl e \<Rightarrow> Inl e
      | Inr s \<Rightarrow>
          if contains tag s then Inr (int (pos + length line))
          else find_tag tag (pos + length line) ls)"

definition start_byte :: "filesystem \<Rightarrow> string \<Rightarrow> string \<Rightarrow> error + int" where
  "start_byte fs name ftype =
     (case fs name of
        None \<Rightarrow> Inl IOError
      | Some content \<Rightarrow>
          (case end_tags ftype of
             None \<Rightarrow> Inl (KeyError ftype)
           | Some tag \<Rightarrow>
               (case find_tag tag 0 (file_lines content) of
                  Inl e \<Rightarrow> Inl e
                | Inr off \<Rightarrow>
                    if off = - 1
                    then Inl (FileHeaderNotFoundError
                           (''Could not find the '' @ tag @ '' end tag in '' @ snd (path_split name)))
                    else Inr off)))"

definition read_raw_header :: "filesystem \<Rightarrow> string \<Rightarrow> int \<Rightarrow> error + string" where
  "read_raw_header fs name off =
     (case fs name of
        None \<Rightarrow> Inl IOError
      | Some content \<Rightarrow> decode (take (nat off) content))"

section \<open>Header grammar\<close>

text \<open>\<^verbatim>\<open>zip(*values)\<close>: the columns of the rows, as many as the shortest row has cells.\<close>

definition zip_star :: "'a list list \<Rightarrow> 'a list list" where
  "zip_star rows =
     (if rows = [] then []
      else map (\<lambda>n. map (\<lambda>r. r ! n) rows) [0..<min_list (map length rows)])"

text \<open>\<^verbatim>\<open>dict(pairs)\<close>: a later pair replaces an earlier one with the same key.\<close>

definition dict_of :: "('k \<times> 'v) list \<Rightarrow> ('k \<times> 'v) list" where
  "dict_of kvs = fold (\<lambda>(k, v) d. AList.update k v d) kvs []"

definition table_cells :: "string \<Rightarrow> string list" where
  "table_cells row = split_on tb (strip_by (\<lambda>c. c = tb) row)"

definition parse_scan_header_table :: "string list \<Rightarrow> error + table" where
  "parse_scan_header_table table_list =
     (let table_processed = map table_cells table_list
      in case table_processed of
           [] \<Rightarrow> Inl IndexError
         | keys # vals \<Rightarrow> Inr (dict_of (zip keys (zip_star vals))))"

definition section_key :: "string \<Rightarrow> string" where
  "section_key entry = lower (strip_by (\<lambda>c. c = CHR '':'') entry)"

text \<open>The inner \<^verbatim>\<open>for j\<close> loop: \<open>count\<close> over the entries after the table marker.\<close>

fun count_table_rows :: "string list \<Rightarrow> nat \<Rightarrow> error + nat" where
  "count_table_rows [] count = Inr count"
| "count_table_rows (e # es) count =
     (if startswith_colon e then Inr count
      else (case e of
              [] \<Rightarrow> Inl IndexError
            | c # _ \<Rightarrow> count_table_rows es (if c = tb then count + 1 else count)))"

text \<open>The outer \<^verbatim>\<open>for i, entry\<close> loop. Every index the body uses is relative to \<open>i\<close>, so
  the loop runs over the entries from \<open>i\<close> on: \<open>rest\<close> is \<^verbatim>\<open>header_entries[i+1:]\<close>.\<close>

fun scan_sections :: "string list \<Rightarrow> 'f header \<Rightarrow> error + 'f header" where
  "scan_sections [] d = Inr d"
| "scan_sections (entry # rest) d =
     (if entry = '':DATA_INFO:'' \<or> entry = '':Z-CONTROLLER:'' then
        (case count_table_rows rest 1 of
           Inl e \<Rightarrow> Inl e
         | Inr count \<Rightarrow>
             (case parse_scan_header_table (take (count - 1) rest) of
                Inl e \<Rightarrow> Inl e
              | Inr t \<Rightarrow> scan_sections rest (AList.update (section_key entry) (Table t) d)))
      else if startswith_colon entry then
        (case rest of
           [] \<Rightarrow> Inl IndexError
         | nxt # _ \<Rightarrow>
             scan_sections rest (AList.update (section_key entry) (Str (strip_by is_space_u nxt)) d))
      else scan_sections rest d)"

definition header_entries :: "string \<Rightarrow> string list" where
  "header_entries raw = (let es = split_on nl raw in take (length es - 3) es)"

definition entries_to_be_split :: "string list" where
  "entries_to_be_split = [''scan_offset'', ''scan_pixels'', ''scan_range'', ''scan_time'']"

definition entries_to_be_floated :: "string list" where
  "entries_to_be_floated = [''scan_offset'', ''scan_range'', ''scan_time'', ''bias'', ''acq_time'']"

definition entries_to_be_inted :: "string list" where
  "entries_to_be_inted = [''scan_pixels'']"

fun split_entries :: "string list \<Rightarrow> 'f header \<Rightarrow> error + 'f header" where
  "split_entries [] d = Inr d"
| "split_entries (key # keys) d =
     (case map_of d key of
        None \<Rightarrow> Inl (KeyError key)
      | Some v \<Rightarrow>
          (case v of
             Str s \<Rightarrow> split_entries keys (AList.update key (StrList (split_ws s)) d)
           | _ \<Rightarrow> Inl AttributeError))"

text \<open>\<^verbatim>\<open>np.asarray(tokens, dtype=...)\<close>: every token converted, the first one rejected
  raises. The conversion of one text is a parameter of the model.\<close>

fun convert_all :: "(string \<Rightarrow> 'a option) \<Rightarrow> string list \<Rightarrow> error + 'a list" where
  "convert_all conv [] = Inr []"
| "convert_all conv (t # ts) =
     (case conv t of
        None \<Rightarrow> Inl (ValueError (NotANumber t))
      | Some v \<Rightarrow>
          (case convert_all conv ts of
             Inl e \<Rightarrow> Inl e
           | Inr vs \<Rightarrow> Inr (v # vs)))"

text \<open>At this point a key of \<^verbatim>\<open>entries_to_be_floated\<close> holds a token list or a text;
  any other value makes \<^verbatim>\<open>np.float\<close> raise.\<close>

fun float_entries :: "(string \<Rightarrow> 'f option) \<Rightarrow> string list \<Rightarrow> 'f header \<Rightarrow> error + 'f header" where
  "float_entries to_float [] d = Inr d"
| "float_entries to_float (key # keys) d =
     (case map_of d key of
        None \<Rightarrow> Inl (KeyError key)
      | Some v \<Rightarrow>
          (case v of
             StrList ts \<Rightarrow>
               (case convert_all to_float ts of
                  Inl e \<Rightarrow> Inl e
                | Inr vs \<Rightarrow> float_entries to_float keys (AList.update key (FloatVec vs) d))
           | Str s \<Rightarrow>
               (case to_float s of
                  None \<Rightarrow> Inl (ValueError (NotANumber s))
                | Some x \<Rightarrow> float_entries to_float keys (AList.update key (FloatV x) d))
           | _ \<Rightarrow> Inl TypeError))"

fun int_entries :: "(string \<Rightarrow> int option) \<Rightarrow> string list \<Rightarrow> 'f header \<Rightarrow> error + 'f header" where
  "int_entries to_int [] d = Inr d"
| "int_entries to_int (key # keys) d =
     (case map_of d key of
        None \<Rightarrow> Inl (KeyError key)
      | Some v \<Rightarrow>
          (case v of
             StrList ts \<Rightarrow>
               (case convert_all to_int ts of
                  Inl e \<Rightarrow> Inl e
                | Inr vs \<Rightarrow> int_entries to_int keys (AList.update key (IntVec vs) d))
           | _ \<Rightarrow> Inl TypeError))"

definition parse_sxm_header ::
  "(string \<Rightarrow> 'f option) \<Rightarrow> (string \<Rightarrow> int option) \<Rightarrow> string \<Rightarrow> error + 'f header" where
  "parse_sxm_header to_float to_int raw =
     (case scan_sections (header_entries raw) [] of
        Inl e \<Rightarrow> Inl e
      | Inr d0 \<Rightarrow>
          (case split_entries entries_to_be_split d0 of
             Inl e \<Rightarrow> Inl e
           | Inr d1 \<Rightarrow>
               (case float_entries to_float entries_to_be_floated d1 of
                  Inl e \<Rightarrow> Inl e
                | Inr d2 \<Rightarrow> int_entries to_int entries_to_be_inted d2)))"

text \<open>The texts that a coercion pass over the keys \<open>ks\<close> hands to the conversion, in the
  order of the pass: the tokens of a key that was split, the text of one that was not.\<close>

definition field_texts :: "'f header \<Rightarrow> string list \<Rightarrow> string list" where
  "field_texts d ks =
     concat (map (\<lambda>k. case map_of d k of
                          Some (StrList ts) \<Rightarrow> ts
                        | Some (Str s) \<Rightarrow> [s]
                        | _ \<Rightarrow> []) ks)"

section \<open>Scan\<close>

definition is_valid_file :: "string \<Rightarrow> string \<Rightarrow> error + unit" where
  "is_valid_file name ext =
     (if last3 name \<noteq> ext
      then Inl (UnhandledFileError (name @ '' is not a '' @ ext @ '' file''))
      else Inr ())"

text \<open>\<^verbatim>\<open>np.fromfile(f, dtype='>f4')\<close>: the complete groups of four bytes, each the
  big-endian bit pattern of one sample; up to three bytes left over are dropped.\<close>

definition be_word :: "char \<Rightarrow> char \<Rightarrow> char \<Rightarrow> char \<Rightarrow> 32 word" where
  "be_word a b c d =
     push_bit 24 (of_char a) OR push_bit 16 (of_char b) OR push_bit 8 (of_char c) OR of_char d"

fun fromfile_f4 :: "string \<Rightarrow> 32 word list" where
  "fromfile_f4 (a # b # c # d # rest) = be_word a b c d # fromfile_f4 rest"
| "fromfile_f4 _ = []"

text \<open>The extents \<^verbatim>\<open>reshape(nchanns, ndir, nx, ny)\<close> ends with: a negative extent is the
  one that numpy infers, two of them or a size that does not fit raise.\<close>

definition reshape_dims :: "nat \<Rightarrow> nat \<Rightarrow> nat \<Rightarrow> int \<Rightarrow> int \<Rightarrow> error + nat \<times> nat" where
  "reshape_dims n nchanns ndir nx ny =
     (if nx < 0 \<and> ny < 0 then Inl (ValueError Reshape)
      else if nx < 0 then
        (let known = nchanns * ndir * nat ny
         in if known = 0 \<or> n mod known \<noteq> 0 then Inl (ValueError Reshape)
            else Inr (n div known, nat ny))
      else if ny < 0 then
        (let known = nchanns * ndir * nat nx
         in if known = 0 \<or> n mod known \<noteq> 0 then Inl (ValueError Reshape)
            else Inr (nat nx, n div known))
      else if nchanns * ndir * nat nx * nat ny = n then Inr (nat nx, nat ny)
      else Inl (ValueError Reshape))"

text \<open>The reshaped array in C order: \<open>shaped ! i ! d ! r ! c\<close> is \<^verbatim>\<open>scandata_shaped[i, d, r, c]\<close>.\<close>

definition reshape4 :: "'a list \<Rightarrow> nat \<Rightarrow> nat \<Rightarrow> nat \<Rightarrow> nat \<Rightarrow> 'a list list list list" where
  "reshape4 xs n0 n1 n2 n3 =
     map (\<lambda>i. map (\<lambda>d. map (\<lambda>r. map (\<lambda>c. xs ! (((i * n1 + d) * n2 + r) * n3 + c))
       [0..<n3]) [0..<n2]) [0..<n1]) [0..<n0]"

definition load_data :: "filesystem \<Rightarrow> string \<Rightarrow> 'f header \<Rightarrow> int \<Rightarrow> error + signals" where
  "load_data fs name hdr off =
     (case map_of hdr ''data_info'' of
        None \<Rightarrow> Inl (KeyError ''data_info'')
      | Some v \<Rightarrow>
          (case v of
             Table t \<Rightarrow>
               (case map_of t ''Name'' of
                  None \<Rightarrow> Inl (KeyError ''Name'')
                | Some channs \<Rightarrow>
                    (case map_of hdr ''scan_pixels'' of
                       None \<Rightarrow> Inl (KeyError ''scan_pixels'')
                     | Some p \<Rightarrow>
                         (case p of
                            IntVec px \<Rightarrow>
                              (case px of
                                 [nx, ny] \<Rightarrow>
                                   (case fs name of
                                      None \<Rightarrow> Inl IOError
                                    | Some content \<Rightarrow>
                                        (let scandata = fromfile_f4 (drop (nat off) content)
                                         in case reshape_dims (length scandata) (length channs) 2 nx ny of
                                              Inl e \<Rightarrow> Inl e
                                            | Inr (n2, n3) \<Rightarrow>
                                                (let shaped = reshape4 scandata (length channs) 2 n2 n3
                                                 in Inr (fold (\<lambda>(i, chann) data_dict.
                                                      AList.update chann
                                                        \<lparr>forward = shaped ! i ! 0, backward = shaped ! i ! 1\<rparr>
                                                        data_dict)
                                                      (enumerate 0 channs) []))))
                               | _ \<Rightarrow> Inl (ValueError Unpack))
                          | _ \<Rightarrow> Inl TypeError)))
           | _ \<Rightarrow> Inl TypeError))"

text \<open>\<^verbatim>\<open>Scan.__init__\<close>, with \<^verbatim>\<open>NanonisFile.__init__\<close> inlined at the \<^verbatim>\<open>super\<close> call.\<close>

definition Scan_init ::
  "(string \<Rightarrow> 'f option) \<Rightarrow> (string \<Rightarrow> int option) \<Rightarrow> filesystem \<Rightarrow> string \<Rightarrow> error + 'f scan" where
  "Scan_init to_float to_int fs name =
     (case is_valid_file name ''sxm'' of
        Inl e \<Rightarrow> Inl e
      | Inr _ \<Rightarrow>
     (case determine_filetype name of
        Inl e \<Rightarrow> Inl e
      | Inr ftype \<Rightarrow>
     (case start_byte fs name ftype of
        Inl e \<Rightarrow> Inl e
      | Inr off \<Rightarrow>
     (case read_raw_header fs name off of
        Inl e \<Rightarrow> Inl e
      | Inr raw \<Rightarrow>
     (case parse_sxm_header to_float to_int raw of
        Inl e \<Rightarrow> Inl e
      | Inr hdr \<Rightarrow>
     (case load_data fs name hdr (off + 4) of
        Inl e \<Rightarrow> Inl e
      | Inr sig \<Rightarrow>
          Inr \<lparr>datadir = fst (path_split name), basename = snd (path_split name),
               fname = name, filetype = ftype, byte_offset = off + 4,
               header_raw = raw, header = hdr, signals = sig\<rparr>))))))"

section \<open>Sample values\<close>

text \<open>The value of a binary32 bit pattern (IEEE 754), where it is a finite number.\<close>

definition f32_value :: "32 word \<Rightarrow> real option" where
  "f32_value w =
     (let e = unat (drop_bit 23 w AND 0xFF);
          m = unat (w AND 0x7FFFFF);
          sg = (if bit w 31 then - 1 else 1 :: real)
      in if e = 255 then None
         else if e = 0 then Some (sg * real m / 2 ^ 149)
         else Some (sg * (1 + real m / 2 ^ 23) * 2 ^ e / 2 ^ 127))"

section \<open>Worked inputs\<close>

text \<open>Stand-ins for the numeric conversions of numpy in the worked inputs: they accept
  the non-empty strings of decimal digits, where \<^verbatim>\<open>float\<close> and \<^verbatim>\<open>int\<close> give the number
  the digits denote, and reject every other text (the worked inputs use \<^verbatim>\<open>abc\<close>, which
  \<^verbatim>\<open>float\<close> and \<^verbatim>\<open>int\<close> reject as well).\<close>

definition dec_int :: "string \<Rightarrow> int option" where
  "dec_int s =
     (if s \<noteq> [] \<and> list_all (\<lambda>c. c \<in> set ''0123456789'') s
      then Some (foldl (\<lambda>a c. 10 * a + int (of_char c - 48)) 0 s) else None)"

definition dec_float :: "string \<Rightarrow> real option" where
  "dec_float s = map_option of_int (dec_int s)"

definition unlines :: "string list \<Rightarrow> string" where
  "unlines ls = concat (map (\<lambda>l. l @ [nl]) ls)"

definition one_file :: "string \<Rightarrow> string \<Rightarrow> filesystem" where
  "one_file path content = (\<lambda>p. if p = path then Some content else None)"

text \<open>The four bytes between the end-tag line and the samples.\<close>

definition marker :: string where
  "marker = [nl, nl, CHR 0x1A, CHR 0x04]"

text \<open>A scan header with the given acquisition-time lines, pixel text, scan-time text, bias
  text and channel table rows; the end-tag line follows a blank line.\<close>

definition sxm_header :: "string list \<Rightarrow> string \<Rightarrow> string \<Rightarrow> string \<Rightarrow> string list \<Rightarrow> string" where
  "sxm_header acq pixels scan_times bias_text table_rows = unlines
     (acq @
      ['':SCAN_PIXELS:'', pixels,
       '':SCAN_TIME:'', scan_times,
       '':SCAN_RANGE:'', ''1 1'',
       '':SCAN_OFFSET:'', ''0 0'',
       '':BIAS:'', bias_text,
       '':DATA_INFO:''] @ table_rows @ [[], '':SCANIT_END:''])"

definition acq_1 :: "string list" where
  "acq_1 = ['':ACQ_TIME:'', ''1'']"

definition table_Z :: "string list" where
  "table_Z = [tb # ''Channel'' @ tb # ''Name'', tb # ''14'' @ tb # ''Z'']"

definition header_2x2 :: string where
  "header_2x2 = sxm_header acq_1 ''2 2'' ''1 1'' ''1'' table_Z"

text \<open>The same header with three scan times, with a bias that is no number, and without
  the acquisition time.\<close>

definition header_three_times :: string where
  "header_three_times = sxm_header acq_1 ''2 2'' ''1 2 3'' ''1'' table_Z"

definition header_bad_bias :: string where
  "header_bad_bias = sxm_header acq_1 ''2 2'' ''1 1'' ''abc'' table_Z"

definition header_no_acq_time :: string where
  "header_no_acq_time = sxm_header [] ''2 2'' ''1 1'' ''1'' table_Z"

text \<open>A channel table whose data row lacks the cell of the third column.\<close>

definition table_ragged :: "string list" where
  "table_ragged = [tb # ''Channel'' @ tb # ''Name'' @ tb # ''Unit'', tb # ''14'' @ tb # ''Z'']"

definition header_ragged :: string where
  "header_ragged = sxm_header acq_1 ''2 2'' ''1 1'' ''1'' table_ragged"

text \<open>A header for three columns and two rows of pixels.\<close>

definition header_3x2 :: string where
  "header_3x2 = sxm_header acq_1 ''3 2'' ''1 1'' ''1'' table_Z"

text \<open>The big-endian binary32 patterns of 1, 2, 3, 4, of 5, 6 and of 7, 8.\<close>

definition payload_1234 :: string where
  "payload_1234 =
     [CHR 0x3F, CHR 0x80, CHR 0x00, CHR 0x00,  CHR 0x40, CHR 0x00, CHR 0x00, CHR 0x00,
      CHR 0x40, CHR 0x40, CHR 0x00, CHR 0x00,  CHR 0x40, CHR 0x80, CHR 0x00, CHR 0x00]"

definition payload_56 :: string where
  "payload_56 = [CHR 0x40, CHR 0xA0, CHR 0x00, CHR 0x00,  CHR 0x40, CHR 0xC0, CHR 0x00, CHR 0x00]"

definition payload_78 :: string where
  "payload_78 = [CHR 0x40, CHR 0xE0, CHR 0x00, CHR 0x00,  CHR 0x41, CHR 0x00, CHR 0x00, CHR 0x00]"

definition payload_5678 :: string where
  "payload_5678 = payload_56 @ payload_78"

text \<open>The 2 x 2 file: forward samples 1, 2, 3, 4, backward samples 5, 6, 7, 8.\<close>

definition file_2x2 :: string where
  "file_2x2 = header_2x2 @ marker @ payload_1234 @ payload_5678"

text \<open>A file of three columns and two rows: the forward scan has the row 1, 2, 3 and the
  row 4, 5, 6, the backward scan the same.\<close>

definition file_3x2 :: string where
  "file_3x2 = header_3x2 @ marker @ (payload_1234 @ payload_56) @ (payload_1234 @ payload_56)"

text \<open>The parsed header of these files, for the given pixel extents.\<close>

definition parsed_header :: "int list \<Rightarrow> real header" where
  "parsed_header px =
     [(''acq_time'', FloatV 1), (''scan_pixels'', IntVec px),
      (''scan_time'', FloatVec [1, 1]), (''scan_range'', FloatVec [1, 1]),
      (''scan_offset'', FloatVec [0, 0]), (''bias'', FloatV 1),
      (''data_info'', Table [(''Channel'', [''14'']), (''Name'', [''Z''])])]"

text \<open>The decoded grids of a channel as numbers, or the error.\<close>

definition grid_values :: "grid \<Rightarrow> real option list list" where
  "grid_values g = map (map f32_value) g"

definition channel_grids ::
  "error + 'f scan \<Rightarrow> string \<Rightarrow> error + (real option list list \<times> real option list list) option" where
  "channel_grids r chann =
     (case r of
        Inl e \<Rightarrow> Inl e
      | Inr sc \<Rightarrow> Inr (map_option (\<lambda>cd. (grid_values (forward cd), grid_values (backward cd)))
                        (map_of (signals sc) chann)))"

section \<open>Lines, whitespace and the end tag\<close>

lemma readline_append: "fst (readline bs) @ snd (readline bs) = bs"
proof (cases "dropWhile (\<lambda>c. c \<noteq> nl) bs")
  case Nil
  show ?thesis unfolding readline_def Nil by simp
next
  case (Cons n r)
  have "takeWhile (\<lambda>c. c \<noteq> nl) bs @ dropWhile (\<lambda>c. c \<noteq> nl) bs = bs"
    by (rule takeWhile_dropWhile_id)
  then show ?thesis unfolding readline_def Cons by simp
qed

lemma concat_file_lines: "concat (file_lines bs) = bs"
proof (induction bs rule: file_lines.induct)
  case (1 bs)
  show ?case
  proof (cases "bs = []")
    case True
    then show ?thesis by (simp add: file_lines.simps)
  next
    case False
    have "concat (file_lines bs) = fst (readline bs) @ concat (file_lines (snd (readline bs)))"
      using False by (subst file_lines.simps) simp
    also have "\<dots> = fst (readline bs) @ snd (readline bs)"
      using 1 False by simp
    finally show ?thesis by (simp add: readline_append)
  qed
qed

lemma strip_by_decomp:
  "s = takeWhile P s @ strip_by P s @ rev (takeWhile P (rev (dropWhile P s)))"
proof -
  define x where "x = dropWhile P s"
  have "rev (rev x) = rev (takeWhile P (rev x) @ dropWhile P (rev x))"
    by (simp only: takeWhile_dropWhile_id)
  then have "x = rev (dropWhile P (rev x)) @ rev (takeWhile P (rev x))"
    by (simp only: rev_append rev_rev_ident)
  then have "dropWhile P s = strip_by P s @ rev (takeWhile P (rev (dropWhile P s)))"
    by (simp only: x_def strip_by_def)
  then have "takeWhile P s @ dropWhile P s =
      takeWhile P s @ strip_by P s @ rev (takeWhile P (rev (dropWhile P s)))"
    by simp
  then show ?thesis by (simp only: takeWhile_dropWhile_id)
qed

lemma is_space_b_ascii: "is_space_b c \<Longrightarrow> (of_char c :: nat) < 128"
  by (auto simp: is_space_b_def)

lemma ascii_append: "ascii (xs @ ys) = (ascii xs \<and> ascii ys)"
  by (simp add: ascii_def)

lemma ascii_takeWhile_space: "ascii (takeWhile is_space_b s)"
  unfolding ascii_def list_all_iff
  by (auto dest: set_takeWhileD is_space_b_ascii)

lemma ascii_rev: "ascii (rev xs) = ascii xs"
  by (simp add: ascii_def list_all_iff)

lemma ascii_strip: "ascii (strip_by is_space_b l) = ascii l"
proof -
  have "ascii l = ascii (takeWhile is_space_b l @ strip_by is_space_b l @
      rev (takeWhile is_space_b (rev (dropWhile is_space_b l))))"
    using strip_by_decomp [of l is_space_b] by simp
  also have "\<dots> = ascii (strip_by is_space_b l)"
    by (simp only: ascii_append ascii_rev ascii_takeWhile_space simp_thms)
  finally show ?thesis by simp
qed

lemma decode_strip: "decode (strip_by is_space_b l) = (if ascii l then Inr (strip_by is_space_b l) else Inl UnicodeDecodeError)"
  by (simp add: decode_def ascii_strip)

lemma find_tag_found:
  assumes "\<forall>p\<in>set pre. ascii p \<and> \<not> contains tag (strip_by is_space_b p)"
    and "ascii l" and "contains tag (strip_by is_space_b l)"
  shows "find_tag tag pos (pre @ l # post) = Inr (int (pos + length (concat pre) + length l))"
  using assms
  by (induction pre arbitrary: pos) (simp_all add: decode_strip add.assoc)

lemma find_tag_absent:
  assumes "\<forall>l\<in>set ls. \<not> contains tag (strip_by is_space_b l)"
  shows "find_tag tag pos ls = (if list_all ascii ls then Inr (- 1) else Inl UnicodeDecodeError)"
  using assms
  by (induction ls arbitrary: pos) (simp_all add: decode_strip)

lemma end_tags_scan: "end_tags ''scan'' = Some ''SCANIT_END''"
  by (simp add: end_tags_def)

lemma last3_sxm: "(last3 name = ''sxm'') = (\<exists>p. name = p @ ''sxm'')"
proof
  assume "last3 name = ''sxm''"
  then have "take (length name - 3) name @ ''sxm'' = name"
    unfolding last3_def by (metis append_take_drop_id)
  then show "\<exists>p. name = p @ ''sxm''" by metis
next
  assume "\<exists>p. name = p @ ''sxm''"
  then show "last3 name = ''sxm''" by (auto simp: last3_def)
qed

section \<open>The exceptions of each stage\<close>

lemma find_tag_error: "find_tag tag pos ls = Inl e \<Longrightarrow> e = UnicodeDecodeError"
  by (induction ls arbitrary: pos) (auto simp: decode_def split: if_splits)

lemma start_byte_error: "start_byte fs name ftype = Inl e \<Longrightarrow> \<not> is_unhandled e"
  by (auto simp: start_byte_def split: option.splits sum.splits if_splits dest: find_tag_error)

lemma read_raw_header_error: "read_raw_header fs name off = Inl e \<Longrightarrow> \<not> is_unhandled e"
  by (auto simp: read_raw_header_def decode_def split: option.splits if_splits)

lemma count_table_rows_error: "count_table_rows es c = Inl e \<Longrightarrow> e = IndexError"
  by (induction es arbitrary: c) (auto split: if_splits list.splits)

lemma parse_scan_header_table_error: "parse_scan_header_table rows = Inl e \<Longrightarrow> e = IndexError"
  by (auto simp: parse_scan_header_table_def split: list.splits)

lemma scan_sections_error: "scan_sections es d = Inl e \<Longrightarrow> e = IndexError"
  by (induction es arbitrary: d)
     (auto split: if_splits sum.splits list.splits
           dest: count_table_rows_error parse_scan_header_table_error)

lemma split_entries_error:
  "split_entries ks d = Inl e \<Longrightarrow> (\<exists>k\<in>set ks. e = KeyError k) \<or> e = AttributeError"
  by (induction ks arbitrary: d) (auto split: option.splits hval.splits)

lemma convert_all_error:
  "convert_all conv ts = Inl e \<Longrightarrow> \<exists>t\<in>set ts. conv t = None \<and> e = ValueError (NotANumber t)"
  by (induction ts arbitrary: e) (auto split: option.splits sum.splits)

lemma float_entries_error:
  "float_entries conv ks d = Inl e \<Longrightarrow>
     (\<exists>k\<in>set ks. e = KeyError k) \<or> e = TypeError \<or> (\<exists>t. conv t = None \<and> e = ValueError (NotANumber t))"
  by (induction ks arbitrary: d)
     (auto split: option.splits hval.splits sum.splits dest: convert_all_error)

lemma int_entries_error:
  "int_entries conv ks d = Inl e \<Longrightarrow>
     (\<exists>k\<in>set ks. e = KeyError k) \<or> e = TypeError \<or> (\<exists>t. conv t = None \<and> e = ValueError (NotANumber t))"
  by (induction ks arbitrary: d)
     (auto split: option.splits hval.splits sum.splits dest: convert_all_error)

lemma parse_sxm_header_error:
  assumes "parse_sxm_header to_float to_int raw = Inl e"
  shows "e = IndexError \<or> (\<exists>k. e = KeyError k) \<or> e = AttributeError \<or> e = TypeError
     \<or> (\<exists>t. (to_float t = None \<or> to_int t = None) \<and> e = ValueError (NotANumber t))"
proof (cases "scan_sections (header_entries raw) ([] :: 'a header)")
  case (Inl e0)
  with assms show ?thesis by (auto simp: parse_sxm_header_def dest: scan_sections_error)
next
  case d0: (Inr d0)
  show ?thesis
  proof (cases "split_entries entries_to_be_split d0")
    case (Inl e1)
    with assms d0 show ?thesis by (auto simp: parse_sxm_header_def dest: split_entries_error)
  next
    case d1: (Inr d1)
    show ?thesis
    proof (cases "float_entries to_float entries_to_be_floated d1")
      case (Inl e2)
      with assms d0 d1 show ?thesis by (auto simp: parse_sxm_header_def dest: float_entries_error)
    next
      case (Inr d2)
      with assms d0 d1 show ?thesis by (auto simp: parse_sxm_header_def dest: int_entries_error)
    qed
  qed
qed

lemma parse_sxm_header_not_unhandled:
  "parse_sxm_header to_float to_int raw = Inl e \<Longrightarrow> \<not> is_unhandled e"
  by (auto dest: parse_sxm_header_error)

lemma reshape_dims_error: "reshape_dims n c d nx ny = Inl e \<Longrightarrow> e = ValueError Reshape"
  by (auto simp: reshape_dims_def Let_def split: if_splits)

lemma load_data_error: "load_data fs name hdr off = Inl e \<Longrightarrow> \<not> is_unhandled e"
  unfolding load_data_def Let_def
  by (auto split: option.splits hval.splits list.splits sum.splits prod.splits
           dest: reshape_dims_error)

section \<open>File-type acceptance\<close>

text \<open>
  Claim C9. Constructing a \<^verbatim>\<open>Scan\<close> raises \<^verbatim>\<open>UnhandledFileError\<close> exactly when the last
  three characters of the path are not \<^verbatim>\<open>sxm\<close>; the check reads nothing but these
  characters, so a path that ends in \<^verbatim>\<open>sxm\<close> without a dot passes it and gets the file
  type \<^verbatim>\<open>scan\<close>.
\<close>

theorem scan_filetype_check:
  "((\<exists>msg. Scan_init to_float to_int fs name = Inl (UnhandledFileError msg)) \<longleftrightarrow> last3 name \<noteq> ''sxm'')
   \<and> (last3 name = ''sxm'' \<longleftrightarrow> (\<exists>p. name = p @ ''sxm''))
   \<and> (last3 name = ''sxm'' \<longrightarrow>
        is_valid_file name ''sxm'' = Inr () \<and> determine_filetype name = Inr ''scan'')"
proof -
  have a: "\<exists>msg. Scan_init to_float to_int fs name = Inl (UnhandledFileError msg)"
    if "last3 name \<noteq> ''sxm''"
    using that by (simp add: Scan_init_def is_valid_file_def)
  have b: "Scan_init to_float to_int fs name \<noteq> Inl (UnhandledFileError msg)"
    if sxm: "last3 name = ''sxm''" for msg
  proof
    assume e: "Scan_init to_float to_int fs name = Inl (UnhandledFileError msg)"
    from sxm have v: "is_valid_file name ''sxm'' = Inr ()" and f: "determine_filetype name = Inr ''scan''"
      by (simp_all add: is_valid_file_def determine_filetype_def)
    from e show False
      unfolding Scan_init_def v f
      by (auto split: sum.splits
               dest!: start_byte_error read_raw_header_error parse_sxm_header_not_unhandled
                 load_data_error)
  qed
  show ?thesis
  proof (intro conjI)
    show "(\<exists>msg. Scan_init to_float to_int fs name = Inl (UnhandledFileError msg))
        \<longleftrightarrow> last3 name \<noteq> ''sxm''"
      using a b by blast
    show "last3 name = ''sxm'' \<longleftrightarrow> (\<exists>p. name = p @ ''sxm'')"
      by (rule last3_sxm)
    show "last3 name = ''sxm'' \<longrightarrow>
        is_valid_file name ''sxm'' = Inr () \<and> determine_filetype name = Inr ''scan''"
      by (simp add: is_valid_file_def determine_filetype_def)
  qed
qed

theorem scan_filetype_check_witness:
  "(\<forall>msg. Scan_init dec_float dec_int (one_file ''foosxm'' []) ''foosxm'' \<noteq> Inl (UnhandledFileError msg))
   \<and> determine_filetype ''foosxm'' = Inr ''scan''
   \<and> (\<exists>msg. Scan_init dec_float dec_int (one_file ''foosxm'' []) ''foo.txt'' = Inl (UnhandledFileError msg))"
  using scan_filetype_check [of dec_float dec_int "one_file ''foosxm'' []" "''foosxm''"]
    scan_filetype_check [of dec_float dec_int "one_file ''foosxm'' []" "''foo.txt''"]
  by (simp add: last3_def)

section \<open>The header boundary\<close>

lemma ascii_concat: "ascii (concat ls) = list_all ascii ls"
  by (induction ls) (simp_all add: ascii_def)

lemma ascii_file_lines: "list_all ascii (file_lines bs) = ascii bs"
  using ascii_concat [of "file_lines bs"] by (simp add: concat_file_lines)

lemma Scan_init_Inr:
  assumes "Scan_init to_float to_int fs name = Inr sc"
  shows "\<exists>off. start_byte fs name ''scan'' = Inr off \<and> byte_offset sc = off + 4
           \<and> load_data fs name (header sc) (off + 4) = Inr (signals sc)
           \<and> read_raw_header fs name off = Inr (header_raw sc)
           \<and> parse_sxm_header to_float to_int (header_raw sc) = Inr (header sc)"
proof -
  from assms have sxm: "last3 name = ''sxm''"
    by (auto simp: Scan_init_def is_valid_file_def split: if_splits)
  then have v: "is_valid_file name ''sxm'' = Inr ()" and f: "determine_filetype name = Inr ''scan''"
    by (simp_all add: is_valid_file_def determine_filetype_def)
  from assms show ?thesis
    unfolding Scan_init_def v f by (auto split: sum.splits)
qed

text \<open>
  Claim C5, as amended. When the first line that holds the end tag (after stripping
  whitespace) and every line before it consist of ASCII bytes only, the locator returns the
  position right after that line, that is the number of bytes of the lines up to and
  including it; the scan decoder reads its samples from that position plus four.
\<close>

theorem start_byte_after_tag_line:
  assumes "fs name = Some content"
    and "file_lines content = pre @ l # post"
    and "\<forall>p\<in>set pre. ascii p \<and> \<not> contains ''SCANIT_END'' (strip_by is_space_b p)"
    and "ascii l" and "contains ''SCANIT_END'' (strip_by is_space_b l)"
  shows "start_byte fs name ''scan'' = Inr (int (length (concat pre @ l)))
     \<and> take (length (concat pre @ l)) content = concat pre @ l
     \<and> (\<forall>sc. Scan_init to_float to_int fs name = Inr sc \<longrightarrow>
          byte_offset sc = int (length (concat pre @ l)) + 4 \<and>
          load_data fs name (header sc) (int (length (concat pre @ l)) + 4) = Inr (signals sc))"
proof -
  have ft: "find_tag ''SCANIT_END'' 0 (file_lines content) = Inr (int (length (concat pre @ l)))"
    unfolding assms(2) using find_tag_found [OF assms(3,4,5), of 0 post] by simp
  have sb: "start_byte fs name ''scan'' = Inr (int (length (concat pre @ l)))"
    unfolding start_byte_def by (simp add: assms(1) end_tags_scan ft)
  have "content = concat (pre @ l # post)"
    using concat_file_lines [of content] by (simp add: assms(2))
  then have tk: "take (length (concat pre @ l)) content = concat pre @ l"
    by simp
  have sc: "byte_offset sc = int (length (concat pre @ l)) + 4 \<and>
          load_data fs name (header sc) (int (length (concat pre @ l)) + 4) = Inr (signals sc)"
    if "Scan_init to_float to_int fs name = Inr sc" for sc
    using Scan_init_Inr [OF that] sb by auto
  from sb tk sc show ?thesis by blast
qed

theorem start_byte_after_tag_line_witness:
  "start_byte (one_file ''a.sxm'' file_2x2) ''a.sxm'' ''scan'' = Inr 137
   \<and> take 137 file_2x2 = header_2x2"
proof -
  have h1: "one_file ''a.sxm'' file_2x2 ''a.sxm'' = Some file_2x2"
    by (simp add: one_file_def)
  have h2: "file_lines file_2x2 = butlast (file_lines header_2x2) @ ('':SCANIT_END:'' @ [nl]) # file_lines (marker @ payload_1234 @ payload_5678)"
    by code_simp
  have h3: "\<forall>p\<in>set (butlast (file_lines header_2x2)). ascii p \<and> \<not> contains ''SCANIT_END'' (strip_by is_space_b p)"
    by code_simp
  have h4: "ascii ('':SCANIT_END:'' @ [nl])" by code_simp
  have h5: "contains ''SCANIT_END'' (strip_by is_space_b ('':SCANIT_END:'' @ [nl]))" by code_simp
  have h6: "concat (butlast (file_lines header_2x2)) @ '':SCANIT_END:'' @ [nl] = header_2x2" by code_simp
  have h7: "length header_2x2 = 137" by code_simp
  have "start_byte (one_file ''a.sxm'' file_2x2) ''a.sxm'' ''scan'' = Inr (int (length header_2x2))
      \<and> take (length header_2x2) file_2x2 = header_2x2"
    using start_byte_after_tag_line [where fs = "one_file ''a.sxm'' file_2x2" and name = "''a.sxm''"
        and to_float = dec_float and to_int = dec_int, OF h1 h2 h3 h4 h5]
    unfolding h6 by blast
  then show ?thesis unfolding h7 by simp
qed

theorem tag_line_after_undecodable_line:
  "file_lines ([CHR 0xFF, nl] @ ''SCANIT_END'' @ [nl]) = [[CHR 0xFF, nl], ''SCANIT_END'' @ [nl]]
   \<and> contains ''SCANIT_END'' (strip_by is_space_b (''SCANIT_END'' @ [nl]))
   \<and> start_byte (one_file ''a.sxm'' ([CHR 0xFF, nl] @ ''SCANIT_END'' @ [nl])) ''a.sxm'' ''scan''
       = Inl UnicodeDecodeError"
  by code_simp

text \<open>
  Claim C6, as amended. When no line of the file holds the end tag, the locator returns no
  offset: it raises \<^verbatim>\<open>FileHeaderNotFoundError\<close> if the file is ASCII throughout, and
  \<^verbatim>\<open>UnicodeDecodeError\<close> otherwise. Constructing the scan fails with the same exception,
  so nothing is decoded as samples.
\<close>

theorem missing_tag_is_fatal:
  assumes "fs name = Some content"
    and "\<forall>l\<in>set (file_lines content). \<not> contains ''SCANIT_END'' (strip_by is_space_b l)"
  shows "start_byte fs name ''scan'' =
      Inl (if ascii content
           then FileHeaderNotFoundError
                  (''Could not find the SCANIT_END end tag in '' @ snd (path_split name))
           else UnicodeDecodeError)
     \<and> (last3 name = ''sxm'' \<longrightarrow>
        Scan_init to_float to_int fs name =
          Inl (if ascii content
               then FileHeaderNotFoundError
                      (''Could not find the SCANIT_END end tag in '' @ snd (path_split name))
               else UnicodeDecodeError))"
proof -
  have ft: "find_tag ''SCANIT_END'' 0 (file_lines content) =
      (if ascii content then Inr (- 1) else Inl UnicodeDecodeError)"
    using find_tag_absent [OF assms(2), of 0] by (simp add: ascii_file_lines)
  have sb: "start_byte fs name ''scan'' =
      Inl (if ascii content
           then FileHeaderNotFoundError
                  (''Could not find the SCANIT_END end tag in '' @ snd (path_split name))
           else UnicodeDecodeError)"
    unfolding start_byte_def by (simp add: assms(1) end_tags_scan ft)
  show ?thesis
    by (simp add: sb Scan_init_def is_valid_file_def determine_filetype_def)
qed

theorem missing_tag_is_fatal_witness:
  "start_byte (one_file ''a.sxm'' (unlines ['':BIAS:'', ''1''])) ''a.sxm'' ''scan'' =
     Inl (FileHeaderNotFoundError ''Could not find the SCANIT_END end tag in a.sxm'')
   \<and> Scan_init dec_float dec_int (one_file ''a.sxm'' (unlines ['':BIAS:'', ''1''])) ''a.sxm'' =
     Inl (FileHeaderNotFoundError ''Could not find the SCANIT_END end tag in a.sxm'')"
proof -
  have h1: "one_file ''a.sxm'' (unlines ['':BIAS:'', ''1'']) ''a.sxm'' = Some (unlines ['':BIAS:'', ''1''])"
    by (simp add: one_file_def)
  have h2: "\<forall>l\<in>set (file_lines (unlines ['':BIAS:'', ''1''])).
      \<not> contains ''SCANIT_END'' (strip_by is_space_b l)"
    by code_simp
  have h3: "ascii (unlines ['':BIAS:'', ''1''])" by code_simp
  have h4: "snd (path_split ''a.sxm'') = ''a.sxm''" by code_simp
  have h5: "last3 ''a.sxm'' = ''sxm''" by code_simp
  show ?thesis
    using missing_tag_is_fatal [where fs = "one_file ''a.sxm'' (unlines ['':BIAS:'', ''1''])"
        and name = "''a.sxm''" and to_float = dec_float and to_int = dec_int, OF h1 h2]
    by (simp add: h3 h4 h5)
qed

theorem no_tag_undecodable_line:
  "start_byte (one_file ''a.sxm'' [CHR 0xFF, nl]) ''a.sxm'' ''scan'' = Inl UnicodeDecodeError"
  by code_simp

section \<open>Header sections and their coercion\<close>

lemma startswith_colon_markers:
  "startswith_colon '':DATA_INFO:''" "startswith_colon '':Z-CONTROLLER:''"
  by (simp_all add: startswith_colon_def)

lemma map_of_update_same: "map_of (AList.update k v al) k = Some v"
  by (simp add: AList.update_conv')

lemma map_of_update_other: "k' \<noteq> k \<Longrightarrow> map_of (AList.update k v al) k' = map_of al k'"
  by (simp add: AList.update_conv')

lemma scan_sections_keys:
  "scan_sections es d = Inr d' \<Longrightarrow> map_of d' k \<noteq> None \<Longrightarrow>
     map_of d k \<noteq> None \<or> (\<exists>e\<in>set es. startswith_colon e \<and> section_key e = k)"
proof (induction es arbitrary: d)
  case Nil
  then show ?case by simp
next
  case (Cons entry rest)
  show ?case
  proof (cases "entry = '':DATA_INFO:'' \<or> entry = '':Z-CONTROLLER:''")
    case True
    then have sc: "startswith_colon entry" using startswith_colon_markers by auto
    from Cons.prems(1) True obtain t where
      r: "scan_sections rest (AList.update (section_key entry) (Table t) d) = Inr d'"
      by (auto split: sum.splits)
    show ?thesis
    proof (cases "k = section_key entry")
      case True
      with sc show ?thesis by auto
    next
      case False
      with Cons.IH [OF r Cons.prems(2)] show ?thesis
        by (auto simp: map_of_update_other)
    qed
  next
    case nt: False
    show ?thesis
    proof (cases "startswith_colon entry")
      case True
      with Cons.prems(1) nt obtain nxt where
        r: "scan_sections rest (AList.update (section_key entry) (Str (strip_by is_space_u nxt)) d) = Inr d'"
        by (auto split: list.splits)
      show ?thesis
      proof (cases "k = section_key entry")
        case k: True
        with True show ?thesis by auto
      next
        case False
        with Cons.IH [OF r Cons.prems(2)] show ?thesis
          by (auto simp: map_of_update_other)
      qed
    next
      case False
      with Cons.prems(1) nt have "scan_sections rest d = Inr d'" by simp
      from Cons.IH [OF this Cons.prems(2)] show ?thesis by auto
    qed
  qed
qed

lemma convert_all_InrD: "convert_all conv ts = Inr vs \<Longrightarrow> map conv ts = map Some vs"
  by (induction ts arbitrary: vs) (auto split: option.splits sum.splits)

lemma convert_all_InrI: "map conv ts = map Some vs \<Longrightarrow> convert_all conv ts = Inr vs"
proof (induction ts arbitrary: vs)
  case Nil
  then show ?case by simp
next
  case (Cons t ts)
  then obtain v vs' where vs: "vs = v # vs'" by (cases vs) auto
  with Cons.prems have "conv t = Some v" and "map conv ts = map Some vs'" by simp_all
  with Cons.IH [of vs'] vs show ?case by simp
qed

lemma split_entries_other:
  "split_entries ks d = Inr d' \<Longrightarrow> k \<notin> set ks \<Longrightarrow> map_of d' k = map_of d k"
proof (induction ks arbitrary: d)
  case Nil
  then show ?case by simp
next
  case (Cons key keys)
  from Cons.prems(1) obtain s where
    rest: "split_entries keys (AList.update key (StrList (split_ws s)) d) = Inr d'"
    by (auto split: option.splits hval.splits)
  from Cons.prems(2) have "k \<noteq> key" and "k \<notin> set keys" by simp_all
  with Cons.IH [OF rest] show ?case by (simp add: map_of_update_other)
qed

lemma split_entries_key:
  "split_entries ks d = Inr d' \<Longrightarrow> distinct ks \<Longrightarrow> k \<in> set ks \<Longrightarrow>
     \<exists>s. map_of d k = Some (Str s) \<and> map_of d' k = Some (StrList (split_ws s))"
proof (induction ks arbitrary: d)
  case Nil
  then show ?case by simp
next
  case (Cons key keys)
  from Cons.prems(1) obtain s where s: "map_of d key = Some (Str s)"
    and rest: "split_entries keys (AList.update key (StrList (split_ws s)) d) = Inr d'"
    by (auto split: option.splits hval.splits)
  from Cons.prems(2) have dk: "distinct keys" and nk: "key \<notin> set keys" by simp_all
  show ?case
  proof (cases "k = key")
    case True
    from split_entries_other [OF rest nk] have "map_of d' key = Some (StrList (split_ws s))"
      by (simp add: map_of_update_same)
    with s True show ?thesis by simp
  next
    case False
    with Cons.prems(3) have "k \<in> set keys" by simp
    from Cons.IH [OF rest dk this] False show ?thesis
      by (simp add: map_of_update_other)
  qed
qed

lemma float_entries_other:
  "float_entries conv ks d = Inr d' \<Longrightarrow> k \<notin> set ks \<Longrightarrow> map_of d' k = map_of d k"
proof (induction ks arbitrary: d)
  case Nil
  then show ?case by simp
next
  case (Cons key keys)
  from Cons.prems(1) obtain v where
    rest: "float_entries conv keys (AList.update key v d) = Inr d'"
    by (auto split: option.splits hval.splits sum.splits)
  from Cons.prems(2) have "k \<noteq> key" and "k \<notin> set keys" by simp_all
  with Cons.IH [OF rest] show ?case by (simp add: map_of_update_other)
qed

lemma float_entries_key:
  "float_entries conv ks d = Inr d' \<Longrightarrow> distinct ks \<Longrightarrow> k \<in> set ks \<Longrightarrow>
     (\<exists>s x. map_of d k = Some (Str s) \<and> conv s = Some x \<and> map_of d' k = Some (FloatV x))
   \<or> (\<exists>ts vs. map_of d k = Some (StrList ts) \<and> map conv ts = map Some vs
         \<and> map_of d' k = Some (FloatVec vs))"
proof (induction ks arbitrary: d)
  case Nil
  then show ?case by simp
next
  case (Cons key keys)
  from Cons.prems(2) have dk: "distinct keys" and nk: "key \<notin> set keys" by simp_all
  from Cons.prems(1) obtain v where
    rest: "float_entries conv keys (AList.update key v d) = Inr d'"
    and v: "(\<exists>s x. map_of d key = Some (Str s) \<and> conv s = Some x \<and> v = FloatV x)
          \<or> (\<exists>ts vs. map_of d key = Some (StrList ts) \<and> convert_all conv ts = Inr vs \<and> v = FloatVec vs)"
    by (auto split: option.splits hval.splits sum.splits)
  show ?case
  proof (cases "k = key")
    case True
    from float_entries_other [OF rest nk] have "map_of d' key = Some v"
      by (simp add: map_of_update_same)
    with v True show ?thesis by (auto dest: convert_all_InrD)
  next
    case False
    with Cons.prems(3) have "k \<in> set keys" by simp
    from Cons.IH [OF rest dk this] False show ?thesis
      by (simp add: map_of_update_other)
  qed
qed

lemma int_entries_other:
  "int_entries conv ks d = Inr d' \<Longrightarrow> k \<notin> set ks \<Longrightarrow> map_of d' k = map_of d k"
proof (induction ks arbitrary: d)
  case Nil
  then show ?case by simp
next
  case (Cons key keys)
  from Cons.prems(1) obtain v where
    rest: "int_entries conv keys (AList.update key v d) = Inr d'"
    by (auto split: option.splits hval.splits sum.splits)
  from Cons.prems(2) have "k \<noteq> key" and "k \<notin> set keys" by simp_all
  with Cons.IH [OF rest] show ?case by (simp add: map_of_update_other)
qed

lemma int_entries_key:
  "int_entries conv ks d = Inr d' \<Longrightarrow> distinct ks \<Longrightarrow> k \<in> set ks \<Longrightarrow>
     \<exists>ts vs. map_of d k = Some (StrList ts) \<and> map conv ts = map Some vs
         \<and> map_of d' k = Some (IntVec vs)"
proof (induction ks arbitrary: d)
  case Nil
  then show ?case by simp
next
  case (Cons key keys)
  from Cons.prems(2) have dk: "distinct keys" and nk: "key \<notin> set keys" by simp_all
  from Cons.prems(1) obtain ts vs where m: "map_of d key = Some (StrList ts)"
    and c: "convert_all conv ts = Inr vs"
    and rest: "int_entries conv keys (AList.update key (IntVec vs) d) = Inr d'"
    by (auto split: option.splits hval.splits sum.splits)
  show ?case
  proof (cases "k = key")
    case True
    from int_entries_other [OF rest nk] have "map_of d' key = Some (IntVec vs)"
      by (simp add: map_of_update_same)
    with m c True show ?thesis by (auto dest: convert_all_InrD)
  next
    case False
    with Cons.prems(3) have "k \<in> set keys" by simp
    from Cons.IH [OF rest dk this] False show ?thesis
      by (simp add: map_of_update_other)
  qed
qed

lemma scan_sections_values:
  "scan_sections es d = Inr d' \<Longrightarrow> map_of d' k = Some v \<Longrightarrow>
     (\<exists>s. v = Str s) \<or> (\<exists>t. v = Table t) \<or> map_of d k = Some v"
proof (induction es arbitrary: d)
  case Nil
  then show ?case by simp
next
  case (Cons entry rest)
  show ?case
  proof (cases "entry = '':DATA_INFO:'' \<or> entry = '':Z-CONTROLLER:''")
    case True
    from Cons.prems(1) True obtain t where
      r: "scan_sections rest (AList.update (section_key entry) (Table t) d) = Inr d'"
      by (auto split: sum.splits)
    from Cons.IH [OF r Cons.prems(2)] show ?thesis
      by (auto simp: AList.update_conv' split: if_splits)
  next
    case nt: False
    show ?thesis
    proof (cases "startswith_colon entry")
      case True
      with Cons.prems(1) nt obtain nxt where
        r: "scan_sections rest (AList.update (section_key entry) (Str (strip_by is_space_u nxt)) d) = Inr d'"
        by (auto split: list.splits)
      from Cons.IH [OF r Cons.prems(2)] show ?thesis
        by (auto simp: AList.update_conv' split: if_splits)
    next
      case False
      with Cons.prems(1) nt have "scan_sections rest d = Inr d'" by simp
      from Cons.IH [OF this Cons.prems(2)] show ?thesis .
    qed
  qed
qed

lemma parse_sxm_header_phases:
  assumes "parse_sxm_header to_float to_int raw = Inr h"
  obtains d0 d1 d2 where "scan_sections (header_entries raw) [] = Inr d0"
    and "split_entries entries_to_be_split d0 = Inr d1"
    and "float_entries to_float entries_to_be_floated d1 = Inr d2"
    and "int_entries to_int entries_to_be_inted d2 = Inr h"
  using assms unfolding parse_sxm_header_def by (auto split: sum.splits)

lemma distinct_entries:
  "distinct entries_to_be_split" "distinct entries_to_be_floated" "distinct entries_to_be_inted"
  by (simp_all add: entries_to_be_split_def entries_to_be_floated_def entries_to_be_inted_def)

lemma parse_vector_field:
  fixes to_float :: "string \<Rightarrow> 'f option" and d0 :: "'f header"
  assumes "scan_sections (header_entries raw) [] = Inr d0"
    and "parse_sxm_header to_float to_int raw = Inr h"
    and "k \<in> {''scan_offset'', ''scan_range'', ''scan_time''}"
  shows "\<exists>s vs. map_of d0 k = Some (Str s) \<and> map to_float (split_ws s) = map Some vs
           \<and> map_of h k = Some (FloatVec vs)"
proof -
  from assms(1,2) obtain d1 d2 where p1: "split_entries entries_to_be_split d0 = Inr d1"
    and p2: "float_entries to_float entries_to_be_floated d1 = Inr d2"
    and p3: "int_entries to_int entries_to_be_inted d2 = Inr h"
    by (auto elim!: parse_sxm_header_phases)
  from assms(3) have k1: "k \<in> set entries_to_be_split" and k2: "k \<in> set entries_to_be_floated"
    and k3: "k \<notin> set entries_to_be_inted"
    by (auto simp: entries_to_be_split_def entries_to_be_floated_def entries_to_be_inted_def)
  from split_entries_key [OF p1 distinct_entries(1) k1] obtain s where
    s: "map_of d0 k = Some (Str s)" "map_of d1 k = Some (StrList (split_ws s))" by blast
  from float_entries_key [OF p2 distinct_entries(2) k2] s(2) obtain vs where
    vs: "map to_float (split_ws s) = map Some vs" "map_of d2 k = Some (FloatVec vs)" by auto
  from int_entries_other [OF p3 k3] vs(2) have "map_of h k = Some (FloatVec vs)" by simp
  with s(1) vs(1) show ?thesis by blast
qed

lemma parse_pixels_field:
  fixes to_float :: "string \<Rightarrow> 'f option" and d0 :: "'f header"
  assumes "scan_sections (header_entries raw) [] = Inr d0"
    and "parse_sxm_header to_float to_int raw = Inr h"
  shows "\<exists>s ns. map_of d0 ''scan_pixels'' = Some (Str s) \<and> map to_int (split_ws s) = map Some ns
           \<and> map_of h ''scan_pixels'' = Some (IntVec ns)"
proof -
  from assms(1,2) obtain d1 d2 where p1: "split_entries entries_to_be_split d0 = Inr d1"
    and p2: "float_entries to_float entries_to_be_floated d1 = Inr d2"
    and p3: "int_entries to_int entries_to_be_inted d2 = Inr h"
    by (auto elim!: parse_sxm_header_phases)
  have k1: "''scan_pixels'' \<in> set entries_to_be_split"
    and k2: "''scan_pixels'' \<notin> set entries_to_be_floated"
    and k3: "''scan_pixels'' \<in> set entries_to_be_inted"
    by (simp_all add: entries_to_be_split_def entries_to_be_floated_def entries_to_be_inted_def)
  from split_entries_key [OF p1 distinct_entries(1) k1] obtain s where
    s: "map_of d0 ''scan_pixels'' = Some (Str s)"
       "map_of d1 ''scan_pixels'' = Some (StrList (split_ws s))" by blast
  from float_entries_other [OF p2 k2] s(2) have
    d2: "map_of d2 ''scan_pixels'' = Some (StrList (split_ws s))" by simp
  from int_entries_key [OF p3 distinct_entries(3) k3] d2 obtain ns where
    "map to_int (split_ws s) = map Some ns" "map_of h ''scan_pixels'' = Some (IntVec ns)" by auto
  with s(1) show ?thesis by blast
qed

lemma parse_scalar_field:
  fixes to_float :: "string \<Rightarrow> 'f option" and d0 :: "'f header"
  assumes "scan_sections (header_entries raw) [] = Inr d0"
    and "parse_sxm_header to_float to_int raw = Inr h"
    and "k \<in> {''bias'', ''acq_time''}"
  shows "\<exists>s x. map_of d0 k = Some (Str s) \<and> to_float s = Some x \<and> map_of h k = Some (FloatV x)"
proof -
  from assms(1,2) obtain d1 d2 where p1: "split_entries entries_to_be_split d0 = Inr d1"
    and p2: "float_entries to_float entries_to_be_floated d1 = Inr d2"
    and p3: "int_entries to_int entries_to_be_inted d2 = Inr h"
    by (auto elim!: parse_sxm_header_phases)
  from assms(3) have k1: "k \<notin> set entries_to_be_split" and k2: "k \<in> set entries_to_be_floated"
    and k3: "k \<notin> set entries_to_be_inted"
    by (auto simp: entries_to_be_split_def entries_to_be_floated_def entries_to_be_inted_def)
  have nolist: "map_of d0 k \<noteq> Some (StrList ts)" for ts
    using scan_sections_values [OF assms(1), of k "StrList ts"] by auto
  from float_entries_key [OF p2 distinct_entries(2) k2] split_entries_other [OF p1 k1] nolist
  obtain s x where sx: "map_of d0 k = Some (Str s)" "to_float s = Some x"
      "map_of d2 k = Some (FloatV x)"
    by auto
  from int_entries_other [OF p3 k3] sx(3) have "map_of h k = Some (FloatV x)" by simp
  with sx(1,2) show ?thesis by blast
qed

lemma parse_other_field:
  fixes to_float :: "string \<Rightarrow> 'f option" and d0 :: "'f header"
  assumes "scan_sections (header_entries raw) [] = Inr d0"
    and "parse_sxm_header to_float to_int raw = Inr h"
    and "k \<notin> {''scan_offset'', ''scan_range'', ''scan_time'', ''scan_pixels'', ''bias'', ''acq_time''}"
  shows "map_of h k = map_of d0 k"
proof -
  from assms(1,2) obtain d1 d2 where p1: "split_entries entries_to_be_split d0 = Inr d1"
    and p2: "float_entries to_float entries_to_be_floated d1 = Inr d2"
    and p3: "int_entries to_int entries_to_be_inted d2 = Inr h"
    by (auto elim!: parse_sxm_header_phases)
  from assms(3) have k1: "k \<notin> set entries_to_be_split" and k2: "k \<notin> set entries_to_be_floated"
    and k3: "k \<notin> set entries_to_be_inted"
    by (auto simp: entries_to_be_split_def entries_to_be_floated_def entries_to_be_inted_def)
  from split_entries_other [OF p1 k1] float_entries_other [OF p2 k2] int_entries_other [OF p3 k3]
  show ?thesis by simp
qed

lemma map_Some_no_None: "map conv ts = map Some vs \<Longrightarrow> t \<in> set ts \<Longrightarrow> conv t \<noteq> None"
proof (induction ts arbitrary: vs)
  case Nil
  then show ?case by simp
next
  case (Cons a ts)
  then obtain v vs' where "vs = v # vs'" by (cases vs) auto
  with Cons show ?case by auto
qed

text \<open>
  Claim C7, as amended. In a header that parses, the coercion runs split, then float,
  then int: \<^verbatim>\<open>scan_offset\<close>, \<^verbatim>\<open>scan_range\<close> and \<^verbatim>\<open>scan_time\<close> hold the floats of the
  whitespace-separated tokens of their text, \<^verbatim>\<open>scan_pixels\<close> holds the integers of its
  tokens, \<^verbatim>\<open>bias\<close> and \<^verbatim>\<open>acq_time\<close> hold the float of their text, and every other
  section is as extracted. A vector has one component for each token, two when the text
  has two.
\<close>

theorem coercion_order:
  fixes to_float :: "string \<Rightarrow> 'f option"
  assumes "parse_sxm_header to_float to_int raw = Inr h"
  shows "\<exists>d0 :: 'f header. scan_sections (header_entries raw) [] = Inr d0
     \<and> (\<forall>k\<in>{''scan_offset'', ''scan_range'', ''scan_time''}. \<exists>s vs.
           map_of d0 k = Some (Str s) \<and> map to_float (split_ws s) = map Some vs
           \<and> map_of h k = Some (FloatVec vs))
     \<and> (\<exists>s ns. map_of d0 ''scan_pixels'' = Some (Str s) \<and> map to_int (split_ws s) = map Some ns
           \<and> map_of h ''scan_pixels'' = Some (IntVec ns))
     \<and> (\<forall>k\<in>{''bias'', ''acq_time''}. \<exists>s x.
           map_of d0 k = Some (Str s) \<and> to_float s = Some x \<and> map_of h k = Some (FloatV x))
     \<and> (\<forall>k. k \<notin> {''scan_offset'', ''scan_range'', ''scan_time'', ''scan_pixels'', ''bias'', ''acq_time''}
           \<longrightarrow> map_of h k = map_of d0 k)"
proof -
  from assms obtain d0 :: "'f header" where p0: "scan_sections (header_entries raw) [] = Inr d0"
    by (auto elim!: parse_sxm_header_phases)
  note v = parse_vector_field [OF p0 assms]
  note p = parse_pixels_field [OF p0 assms]
  note c = parse_scalar_field [OF p0 assms]
  note o = parse_other_field [OF p0 assms]
  show ?thesis
  proof (intro exI [of _ d0] conjI ballI allI impI)
    show "scan_sections (header_entries raw) [] = Inr d0" by (rule p0)
  qed (rule v p c o; assumption)+
qed

theorem coercion_order_witness:
  "\<exists>h. parse_sxm_header dec_float dec_int header_2x2 = Inr h
     \<and> (\<exists>d0 :: real header. scan_sections (header_entries header_2x2) [] = Inr d0
     \<and> (\<forall>k\<in>{''scan_offset'', ''scan_range'', ''scan_time''}. \<exists>s vs.
           map_of d0 k = Some (Str s) \<and> map dec_float (split_ws s) = map Some vs
           \<and> map_of h k = Some (FloatVec vs))
     \<and> (\<exists>s ns. map_of d0 ''scan_pixels'' = Some (Str s) \<and> map dec_int (split_ws s) = map Some ns
           \<and> map_of h ''scan_pixels'' = Some (IntVec ns))
     \<and> (\<forall>k\<in>{''bias'', ''acq_time''}. \<exists>s x.
           map_of d0 k = Some (Str s) \<and> dec_float s = Some x \<and> map_of h k = Some (FloatV x))
     \<and> (\<forall>k. k \<notin> {''scan_offset'', ''scan_range'', ''scan_time'', ''scan_pixels'', ''bias'', ''acq_time''}
           \<longrightarrow> map_of h k = map_of d0 k))"
proof -
  have e: "parse_sxm_header dec_float dec_int header_2x2 =
     Inr [(''acq_time'', FloatV 1), (''scan_pixels'', IntVec [2, 2]),
          (''scan_time'', FloatVec [1, 1]), (''scan_range'', FloatVec [1, 1]),
          (''scan_offset'', FloatVec [0, 0]), (''bias'', FloatV 1),
          (''data_info'', Table [(''Channel'', [''14'']), (''Name'', [''Z''])])]"
    by code_simp
  show ?thesis
    by (rule exI, rule conjI [OF e coercion_order [OF e]])
qed

theorem three_scan_times:
  "map_sum id (\<lambda>h. map_of h ''scan_time'') (parse_sxm_header dec_float dec_int header_three_times)
     = Inr (Some (FloatVec [1, 2, 3]))"
  by code_simp

lemma find_append_cases:
  "find P (xs @ ys) = (case find P xs of Some x \<Rightarrow> Some x | None \<Rightarrow> find P ys)"
  by (induction xs) simp_all

lemma convert_all_rejected:
  "find (\<lambda>t. conv t = None) ts = Some t \<Longrightarrow> convert_all conv ts = Inl (ValueError (NotANumber t))"
  by (induction ts) (auto split: option.splits sum.splits if_splits)

lemma convert_all_accepted:
  "find (\<lambda>t. conv t = None) ts = None \<Longrightarrow> \<exists>vs. convert_all conv ts = Inr vs"
  by (induction ts) (auto split: option.splits sum.splits if_splits)

lemma field_texts_Cons:
  "field_texts d (k # ks) =
     (case map_of d k of Some (StrList ts) \<Rightarrow> ts | Some (Str s) \<Rightarrow> [s] | _ \<Rightarrow> []) @ field_texts d ks"
  by (simp add: field_texts_def)

lemma field_texts_update:
  "key \<notin> set ks \<Longrightarrow> field_texts (AList.update key v d) ks = field_texts d ks"
proof (induction ks)
  case Nil
  then show ?case by (simp add: field_texts_def)
next
  case (Cons k ks)
  then have "k \<noteq> key" and "key \<notin> set ks" by auto
  with Cons.IH show ?case by (simp add: field_texts_Cons map_of_update_other)
qed

lemma split_entries_total:
  "distinct ks \<Longrightarrow> \<forall>k\<in>set ks. \<exists>s. map_of d k = Some (Str s) \<Longrightarrow>
     \<exists>d'. split_entries ks d = Inr d'"
proof (induction ks arbitrary: d)
  case Nil
  then show ?case by simp
next
  case (Cons key keys)
  from Cons.prems(2) obtain s where s: "map_of d key = Some (Str s)" by auto
  from Cons.prems(1) have dk: "distinct keys" and nk: "key \<notin> set keys" by simp_all
  have "\<forall>k\<in>set keys. \<exists>s'. map_of (AList.update key (StrList (split_ws s)) d) k = Some (Str s')"
  proof
    fix k assume k: "k \<in> set keys"
    with nk have "k \<noteq> key" by auto
    with Cons.prems(2) k show "\<exists>s'. map_of (AList.update key (StrList (split_ws s)) d) k = Some (Str s')"
      by (simp add: map_of_update_other)
  qed
  from Cons.IH [OF dk this] s show ?case by simp
qed

lemma float_entries_exact:
  assumes "distinct ks"
    and "\<forall>k\<in>set ks. (\<exists>s. map_of d k = Some (Str s)) \<or> (\<exists>ts. map_of d k = Some (StrList ts))"
  shows "(\<forall>t. find (\<lambda>t. conv t = None) (field_texts d ks) = Some t \<longrightarrow>
            float_entries conv ks d = Inl (ValueError (NotANumber t)))
       \<and> (find (\<lambda>t. conv t = None) (field_texts d ks) = None \<longrightarrow>
            (\<exists>d'. float_entries conv ks d = Inr d'))"
  using assms
proof (induction ks arbitrary: d)
  case Nil
  then show ?case by (simp add: field_texts_def)
next
  case (Cons key keys)
  from Cons.prems(1) have dk: "distinct keys" and nk: "key \<notin> set keys" by simp_all
  have pre: "\<forall>k\<in>set keys. (\<exists>s. map_of (AList.update key v d) k = Some (Str s))
        \<or> (\<exists>ts. map_of (AList.update key v d) k = Some (StrList ts))" for v
  proof
    fix k assume k: "k \<in> set keys"
    with nk have "k \<noteq> key" by auto
    with Cons.prems(2) k show "(\<exists>s. map_of (AList.update key v d) k = Some (Str s))
        \<or> (\<exists>ts. map_of (AList.update key v d) k = Some (StrList ts))"
      by (simp add: map_of_update_other)
  qed
  note ih = Cons.IH [OF dk pre]
  note ft = field_texts_update [OF nk]
  from Cons.prems(2) consider (scalar) s where "map_of d key = Some (Str s)"
    | (vector) ts where "map_of d key = Some (StrList ts)"
    by auto
  then show ?case
  proof cases
    case scalar
    show ?thesis
    proof (cases "conv s")
      case None
      with scalar show ?thesis by (simp add: field_texts_Cons)
    next
      case (Some x)
      with scalar ih [of "FloatV x"] show ?thesis
        by (simp add: field_texts_Cons ft)
    qed
  next
    case vector
    show ?thesis
    proof (cases "find (\<lambda>t. conv t = None) ts")
      case None
      from convert_all_accepted [OF None] obtain vs where "convert_all conv ts = Inr vs" ..
      with vector None ih [of "FloatVec vs"] show ?thesis
        by (simp add: field_texts_Cons ft find_append_cases)
    next
      case (Some t)
      from convert_all_rejected [OF Some] vector Some show ?thesis
        by (simp add: field_texts_Cons find_append_cases)
    qed
  qed
qed

lemma int_entries_exact:
  assumes "distinct ks"
    and "\<forall>k\<in>set ks. \<exists>ts. map_of d k = Some (StrList ts)"
  shows "(\<forall>t. find (\<lambda>t. conv t = None) (field_texts d ks) = Some t \<longrightarrow>
            int_entries conv ks d = Inl (ValueError (NotANumber t)))
       \<and> (find (\<lambda>t. conv t = None) (field_texts d ks) = None \<longrightarrow>
            (\<exists>d'. int_entries conv ks d = Inr d'))"
  using assms
proof (induction ks arbitrary: d)
  case Nil
  then show ?case by (simp add: field_texts_def)
next
  case (Cons key keys)
  from Cons.prems(1) have dk: "distinct keys" and nk: "key \<notin> set keys" by simp_all
  have pre: "\<forall>k\<in>set keys. \<exists>ts. map_of (AList.update key v d) k = Some (StrList ts)" for v
  proof
    fix k assume k: "k \<in> set keys"
    with nk have "k \<noteq> key" by auto
    with Cons.prems(2) k show "\<exists>ts. map_of (AList.update key v d) k = Some (StrList ts)"
      by (simp add: map_of_update_other)
  qed
  note ih = Cons.IH [OF dk pre]
  note ft = field_texts_update [OF nk]
  from Cons.prems(2) obtain ts where vector: "map_of d key = Some (StrList ts)" by auto
  show ?case
  proof (cases "find (\<lambda>t. conv t = None) ts")
    case None
    from convert_all_accepted [OF None] obtain vs where "convert_all conv ts = Inr vs" ..
    with vector None ih [of "IntVec vs"] show ?thesis
      by (simp add: field_texts_Cons ft find_append_cases)
  next
    case (Some t)
    from convert_all_rejected [OF Some] vector Some show ?thesis
      by (simp add: field_texts_Cons find_append_cases)
  qed
qed


text \<open>
  Claim C8, as amended. When the sections are extracted and the header holds the six
  numeric fields, and one of them holds a text that the conversion rejects, parsing fails
  with the \<^verbatim>\<open>ValueError\<close> of the conversion: it returns no header, so no field gets a
  default. The exception carries the first rejected text in the order of coercion (the
  tokens of \<^verbatim>\<open>scan_offset\<close>, \<^verbatim>\<open>scan_range\<close> and \<^verbatim>\<open>scan_time\<close>, the texts of \<^verbatim>\<open>bias\<close>
  and \<^verbatim>\<open>acq_time\<close>, then the tokens of \<^verbatim>\<open>scan_pixels\<close>) and not the name of the field.
\<close>

theorem rejected_number_is_fatal:
  fixes to_float :: "string \<Rightarrow> 'f option" and d0 :: "'f header"
  assumes "scan_sections (header_entries raw) [] = Inr d0"
    and "map_of d0 ''scan_offset'' = Some (Str so)"
    and "map_of d0 ''scan_pixels'' = Some (Str sp)"
    and "map_of d0 ''scan_range'' = Some (Str sr)"
    and "map_of d0 ''scan_time'' = Some (Str st)"
    and "map_of d0 ''bias'' = Some (Str sb)"
    and "map_of d0 ''acq_time'' = Some (Str sa)"
    and "(\<exists>t\<in>set (split_ws so @ split_ws sr @ split_ws st @ [sb, sa]). to_float t = None)
       \<or> (\<exists>t\<in>set (split_ws sp). to_int t = None)"
  shows "\<exists>t. parse_sxm_header to_float to_int raw = Inl (ValueError (NotANumber t))
     \<and> (find (\<lambda>t. to_float t = None) (split_ws so @ split_ws sr @ split_ws st @ [sb, sa]) = Some t
        \<or> find (\<lambda>t. to_float t = None) (split_ws so @ split_ws sr @ split_ws st @ [sb, sa]) = None
          \<and> find (\<lambda>t. to_int t = None) (split_ws sp) = Some t)"
proof -
  let ?floats = "split_ws so @ split_ws sr @ split_ws st @ [sb, sa]"
  have in_split: "''scan_offset'' \<in> set entries_to_be_split" "''scan_pixels'' \<in> set entries_to_be_split"
    "''scan_range'' \<in> set entries_to_be_split" "''scan_time'' \<in> set entries_to_be_split"
    and out_split: "''bias'' \<notin> set entries_to_be_split" "''acq_time'' \<notin> set entries_to_be_split"
    and out_float: "''scan_pixels'' \<notin> set entries_to_be_floated"
    by (simp_all add: entries_to_be_split_def entries_to_be_floated_def)
  have "\<forall>k\<in>set entries_to_be_split. \<exists>s. map_of d0 k = Some (Str s)"
    by (simp add: entries_to_be_split_def assms(2,3,4,5))
  from split_entries_total [OF distinct_entries(1) this]
  obtain d1 where p1: "split_entries entries_to_be_split d0 = Inr d1" ..
  have vec: "map_of d1 k = Some (StrList (split_ws s))"
    if "k \<in> set entries_to_be_split" and "map_of d0 k = Some (Str s)" for k s
    using split_entries_key [OF p1 distinct_entries(1) that(1)] that(2) by auto
  note l1 = vec [OF in_split(1) assms(2)] vec [OF in_split(2) assms(3)]
    vec [OF in_split(3) assms(4)] vec [OF in_split(4) assms(5)]
  have l2: "map_of d1 ''bias'' = Some (Str sb)" "map_of d1 ''acq_time'' = Some (Str sa)"
    using split_entries_other [OF p1 out_split(1)] split_entries_other [OF p1 out_split(2)]
    by (simp_all add: assms(6,7))
  have ftexts: "field_texts d1 entries_to_be_floated = ?floats"
    by (simp add: field_texts_def entries_to_be_floated_def l1 l2)
  have "\<forall>k\<in>set entries_to_be_floated.
      (\<exists>s. map_of d1 k = Some (Str s)) \<or> (\<exists>ts. map_of d1 k = Some (StrList ts))"
    by (simp add: entries_to_be_floated_def l1 l2)
  note fe = float_entries_exact [OF distinct_entries(2) this, of to_float, unfolded ftexts]
  show ?thesis
  proof (cases "find (\<lambda>t. to_float t = None) ?floats")
    case (Some t)
    with fe have "float_entries to_float entries_to_be_floated d1 = Inl (ValueError (NotANumber t))"
      by simp
    then have "parse_sxm_header to_float to_int raw = Inl (ValueError (NotANumber t))"
      by (simp add: parse_sxm_header_def assms(1) p1)
    with Some show ?thesis by blast
  next
    case None
    with fe obtain d2 where p2: "float_entries to_float entries_to_be_floated d1 = Inr d2"
      by auto
    from float_entries_other [OF p2 out_float] l1(2)
    have l3: "map_of d2 ''scan_pixels'' = Some (StrList (split_ws sp))" by simp
    have itexts: "field_texts d2 entries_to_be_inted = split_ws sp"
      by (simp add: field_texts_def entries_to_be_inted_def l3)
    have "\<forall>k\<in>set entries_to_be_inted. \<exists>ts. map_of d2 k = Some (StrList ts)"
      by (simp add: entries_to_be_inted_def l3)
    note ie = int_entries_exact [OF distinct_entries(3) this, of to_int, unfolded itexts]
    from None have "\<not> (\<exists>t\<in>set ?floats. to_float t = None)"
      by (simp only: find_None_iff) blast
    with assms(8) have "\<exists>t\<in>set (split_ws sp). to_int t = None" by blast
    then have "find (\<lambda>t. to_int t = None) (split_ws sp) \<noteq> None"
      by (simp only: find_None_iff) blast
    then obtain t where t: "find (\<lambda>t. to_int t = None) (split_ws sp) = Some t" by auto
    with ie have "int_entries to_int entries_to_be_inted d2 = Inl (ValueError (NotANumber t))"
      by simp
    then have "parse_sxm_header to_float to_int raw = Inl (ValueError (NotANumber t))"
      by (simp add: parse_sxm_header_def assms(1) p1 p2)
    with None t show ?thesis by blast
  qed
qed

theorem rejected_number_is_fatal_witness:
  "\<exists>t. parse_sxm_header dec_float dec_int header_bad_bias = Inl (ValueError (NotANumber t))
     \<and> (find (\<lambda>t. dec_float t = None)
           (split_ws ''0 0'' @ split_ws ''1 1'' @ split_ws ''1 1'' @ [''abc'', ''1'']) = Some t
        \<or> find (\<lambda>t. dec_float t = None)
             (split_ws ''0 0'' @ split_ws ''1 1'' @ split_ws ''1 1'' @ [''abc'', ''1'']) = None
          \<and> find (\<lambda>t. dec_int t = None) (split_ws ''2 2'') = Some t)"
proof -
  define d0 :: "real header" where "d0 =
      [(''acq_time'', Str ''1''), (''scan_pixels'', Str ''2 2''),
       (''scan_time'', Str ''1 1''), (''scan_range'', Str ''1 1''),
       (''scan_offset'', Str ''0 0''), (''bias'', Str ''abc''),
       (''data_info'', Table [(''Channel'', [''14'']), (''Name'', [''Z''])])]"
  have h1: "scan_sections (header_entries header_bad_bias) [] = Inr d0"
    unfolding d0_def by code_simp
  have h2: "map_of d0 ''scan_offset'' = Some (Str ''0 0'')"
    and h3: "map_of d0 ''scan_pixels'' = Some (Str ''2 2'')"
    and h4: "map_of d0 ''scan_range'' = Some (Str ''1 1'')"
    and h5: "map_of d0 ''scan_time'' = Some (Str ''1 1'')"
    and h6: "map_of d0 ''bias'' = Some (Str ''abc'')"
    and h7: "map_of d0 ''acq_time'' = Some (Str ''1'')"
    unfolding d0_def by simp_all
  have r: "dec_float ''abc'' = None" by code_simp
  have h8: "(\<exists>t\<in>set (split_ws ''0 0'' @ split_ws ''1 1'' @ split_ws ''1 1'' @ [''abc'', ''1'']).
        dec_float t = None)
      \<or> (\<exists>t\<in>set (split_ws ''2 2''). dec_int t = None)"
    using r by simp
  show ?thesis
    by (rule rejected_number_is_fatal [where to_float = dec_float and to_int = dec_int,
          OF h1 h2 h3 h4 h5 h6 h7 h8])
qed

theorem bad_bias_error:
  "parse_sxm_header dec_float dec_int header_bad_bias = Inl (ValueError (NotANumber ''abc''))"
  by code_simp

text \<open>
  Claim C10. A header without an \<^verbatim>\<open>acq_time\<close> section fails to parse: the float pass
  looks \<^verbatim>\<open>acq_time\<close> up without a test, as it does for the other numeric fields.
\<close>

theorem acq_time_required:
  fixes to_float :: "string \<Rightarrow> 'f option"
  assumes "\<forall>e\<in>set (header_entries raw). startswith_colon e \<longrightarrow> section_key e \<noteq> ''acq_time''"
  shows "\<exists>err. parse_sxm_header to_float to_int raw = Inl err"
proof (cases "parse_sxm_header to_float to_int raw")
  case (Inl e)
  then show ?thesis by blast
next
  case (Inr h)
  then obtain d0 :: "'f header" where p0: "scan_sections (header_entries raw) [] = Inr d0"
    by (auto elim!: parse_sxm_header_phases)
  from parse_scalar_field [OF p0 Inr, of "''acq_time''"] have "map_of d0 ''acq_time'' \<noteq> None"
    by auto
  from scan_sections_keys [OF p0 this] assms have False by auto
  then show ?thesis ..
qed

theorem acq_time_required_witness:
  "(\<exists>err. parse_sxm_header dec_float dec_int header_no_acq_time = Inl err)
   \<and> parse_sxm_header dec_float dec_int header_no_acq_time = Inl (KeyError ''acq_time'')"
proof -
  have h: "\<forall>e\<in>set (header_entries header_no_acq_time).
      startswith_colon e \<longrightarrow> section_key e \<noteq> ''acq_time''"
    by code_simp
  have "parse_sxm_header dec_float dec_int header_no_acq_time = Inl (KeyError ''acq_time'')"
    by code_simp
  with acq_time_required [OF h, of dec_float dec_int] show ?thesis by simp
qed

section \<open>The channel table\<close>

lemma map_of_fold_update:
  "map_of (fold (\<lambda>(k, v) d. AList.update k v d) kvs acc) = map_of acc ++ map_of (rev kvs)"
proof (induction kvs arbitrary: acc)
  case Nil
  then show ?case by simp
next
  case (Cons kv kvs)
  obtain k v where kv: "kv = (k, v)" by (cases kv)
  have "map_of (fold (\<lambda>(k, v) d. AList.update k v d) (kv # kvs) acc)
      = map_of (AList.update k v acc) ++ map_of (rev kvs)"
    using Cons.IH [of "AList.update k v acc"] by (simp add: kv)
  also have "\<dots> = map_of acc ++ map_of (rev (kv # kvs))"
    by (simp add: kv AList.update_conv' map_add_def fun_eq_iff split: option.splits)
  finally show ?case .
qed

lemma length_fold_update:
  "length (fold (\<lambda>(k, v) d. AList.update k v d) kvs acc) \<le> length acc + length kvs"
proof (induction kvs arbitrary: acc)
  case Nil
  then show ?case by simp
next
  case (Cons kv kvs)
  obtain k v where kv: "kv = (k, v)" by (cases kv)
  have "length (AList.update k v acc) \<le> Suc (length acc)"
    by (induction acc) auto
  with Cons.IH [of "AList.update k v acc"] show ?case by (simp add: kv)
qed

lemma set_update_values: "snd ` set (AList.update k v al) \<subseteq> insert v (snd ` set al)"
  by (induction al) auto

lemma set_fold_update_values:
  "snd ` set (fold (\<lambda>(k, v) d. AList.update k v d) kvs acc) \<subseteq> snd ` set acc \<union> snd ` set kvs"
proof (induction kvs arbitrary: acc)
  case Nil
  then show ?case by simp
next
  case (Cons kv kvs)
  obtain k v where kv: "kv = (k, v)" by (cases kv)
  from Cons.IH [of "AList.update k v acc"] set_update_values [of k v acc]
  show ?case by (auto simp: kv)
qed

lemma dict_of_length: "length (dict_of kvs) \<le> length kvs"
  using length_fold_update [of kvs "[]"] by (simp add: dict_of_def)

lemma dict_of_values: "snd ` set (dict_of kvs) \<subseteq> snd ` set kvs"
  using set_fold_update_values [of kvs "[]"] by (simp add: dict_of_def)

lemma dict_of_lookup:
  assumes "distinct (map fst kvs)"
  shows "map_of (dict_of kvs) = map_of kvs"
proof -
  have "map_of (dict_of kvs) = map_of (rev kvs)"
    by (simp add: dict_of_def map_of_fold_update)
  also have "\<dots> = map_of kvs"
    using assms by (simp add: map_of_inject_set distinct_rev rev_map [symmetric])
  finally show ?thesis .
qed

lemma length_zip_star: "rows \<noteq> [] \<Longrightarrow> length (zip_star rows) = min_list (map length rows)"
  by (simp add: zip_star_def)

lemma zip_star_column: "col \<in> set (zip_star rows) \<Longrightarrow> length col = length rows"
  by (auto simp: zip_star_def split: if_splits)

lemma zip_star_nth:
  "rows \<noteq> [] \<Longrightarrow> n < min_list (map length rows) \<Longrightarrow> zip_star rows ! n = map (\<lambda>r. r ! n) rows"
  by (simp add: zip_star_def)


lemma zip_take_min:
  "zip xs ys = zip (take (min (length xs) (length ys)) xs) (take (min (length xs) (length ys)) ys)"
  by (induct xs ys rule: list_induct2') simp_all

lemma table_cells_rows:
  "parse_scan_header_table (hrow # rows) =
     Inr (dict_of (zip (table_cells hrow) (zip_star (map table_cells rows))))"
  by (simp add: parse_scan_header_table_def)

text \<open>
  Claim C3, as amended. A table whose rows differ in their number of tab-separated cells
  raises nothing: the table parser returns a table for every non-empty list of rows. The
  table has at most as many columns as the shortest row has cells (the row of column
  names included), every column has one cell for each data row, and with distinct column
  names the column of the \<open>n\<close>-th name holds the \<open>n\<close>-th cells of the data rows; the
  cells beyond the shortest row are dropped.
\<close>

theorem table_rows_truncated:
  "\<exists>t. parse_scan_header_table (hrow # rows) = Inr t
     \<and> (\<forall>col\<in>snd ` set t. length col = length rows)
     \<and> (rows \<noteq> [] \<longrightarrow>
          length t \<le> min_list (map (\<lambda>r. length (table_cells r)) (hrow # rows))
        \<and> (distinct (table_cells hrow) \<longrightarrow>
            (\<forall>n < min_list (map (\<lambda>r. length (table_cells r)) (hrow # rows)).
               map_of t (table_cells hrow ! n) = Some (map (\<lambda>r. table_cells r ! n) rows))))"
proof -
  define keys where "keys = table_cells hrow"
  define vals where "vals = map table_cells rows"
  define t where "t = dict_of (zip keys (zip_star vals))"
  have p: "parse_scan_header_table (hrow # rows) = Inr t"
    by (simp add: table_cells_rows t_def keys_def vals_def)
  have c: "length col = length rows" if "col \<in> snd ` set t" for col
  proof -
    from that dict_of_values [of "zip keys (zip_star vals)"]
    have "col \<in> snd ` set (zip keys (zip_star vals))" by (auto simp: t_def)
    then have "col \<in> set (zip_star vals)" by (auto dest: set_zip_rightD)
    then show ?thesis using zip_star_column [of col vals] by (simp add: vals_def)
  qed
  have m: "min_list (map (\<lambda>r. length (table_cells r)) (hrow # rows))
      = min (length keys) (min_list (map length vals))" if "rows \<noteq> []"
    using that by (cases rows) (simp_all add: keys_def vals_def comp_def)
  have l: "length t \<le> min (length keys) (min_list (map length vals))" if "rows \<noteq> []"
  proof -
    from that have ne: "vals \<noteq> []" by (simp add: vals_def)
    have lz: "length (zip_star vals) = min_list (map length vals)"
      using ne by (rule length_zip_star)
    have "length t \<le> length (zip keys (zip_star vals))"
      unfolding t_def by (rule dict_of_length)
    also have "\<dots> = min (length keys) (min_list (map length vals))"
      by (simp add: lz)
    finally show ?thesis .
  qed
  have n: "map_of t (keys ! n) = Some (map (\<lambda>r. table_cells r ! n) rows)"
    if "rows \<noteq> []" and d: "distinct keys"
      and n: "n < min (length keys) (min_list (map length vals))" for n
  proof -
    from that(1) have ne: "vals \<noteq> []" by (simp add: vals_def)
    have lz: "length (zip_star vals) = min_list (map length vals)"
      using ne by (rule length_zip_star)
    let ?m = "min (length keys) (length (zip_star vals))"
    have z: "zip keys (zip_star vals) = zip (take ?m keys) (take ?m (zip_star vals))"
      by (rule zip_take_min)
    have dk: "distinct (take ?m keys)" using d by simp
    have "distinct (map fst (zip keys (zip_star vals)))"
      using dk by (simp add: map_fst_zip_take)
    then have "map_of t = map_of (zip keys (zip_star vals))"
      unfolding t_def by (rule dict_of_lookup)
    then have "map_of t = map_of (zip (take ?m keys) (take ?m (zip_star vals)))"
      using z by simp
    moreover have "map_of (zip (take ?m keys) (take ?m (zip_star vals))) (take ?m keys ! n)
        = Some (take ?m (zip_star vals) ! n)"
      using n dk lz by (intro map_of_zip_nth) simp_all
    ultimately have "map_of t (keys ! n) = Some (zip_star vals ! n)"
      using n lz by simp
    also have "zip_star vals ! n = map (\<lambda>r. r ! n) vals"
      using ne n by (simp add: zip_star_nth)
    also have "\<dots> = map (\<lambda>r. table_cells r ! n) rows"
      by (simp add: vals_def comp_def)
    finally show ?thesis .
  qed
  show ?thesis
  proof (intro exI [of _ t] conjI ballI impI allI)
    show "parse_scan_header_table (hrow # rows) = Inr t" by (rule p)
  next
    fix col assume "col \<in> snd ` set t"
    then show "length col = length rows" by (rule c)
  next
    assume "rows \<noteq> []"
    then show "length t \<le> min_list (map (\<lambda>r. length (table_cells r)) (hrow # rows))"
      using l m by simp
  next
    fix n
    assume "rows \<noteq> []" "distinct (table_cells hrow)"
      "n < min_list (map (\<lambda>r. length (table_cells r)) (hrow # rows))"
    then show "map_of t (table_cells hrow ! n) = Some (map (\<lambda>r. table_cells r ! n) rows)"
      using n [of n] m by (simp add: keys_def)
  qed
qed

theorem table_rows_truncated_witness:
  "parse_scan_header_table table_ragged = Inr [(''Channel'', [''14'']), (''Name'', [''Z''])]
   \<and> (\<exists>t. parse_scan_header_table table_ragged = Inr t \<and> length t \<le> 2)"
proof -
  have e: "parse_scan_header_table table_ragged = Inr [(''Channel'', [''14'']), (''Name'', [''Z''])]"
    by code_simp
  have r: "table_ragged = (tb # ''Channel'' @ tb # ''Name'' @ tb # ''Unit'') # [tb # ''14'' @ tb # ''Z'']"
    by (simp add: table_ragged_def)
  have m: "min_list (map (\<lambda>r. length (table_cells r))
      ((tb # ''Channel'' @ tb # ''Name'' @ tb # ''Unit'') # [tb # ''14'' @ tb # ''Z''])) = 2"
    by code_simp
  from table_rows_truncated [of "tb # ''Channel'' @ tb # ''Name'' @ tb # ''Unit''" "[tb # ''14'' @ tb # ''Z'']"]
  obtain t where "parse_scan_header_table table_ragged = Inr t"
    and "length t \<le> min_list (map (\<lambda>r. length (table_cells r))
      ((tb # ''Channel'' @ tb # ''Name'' @ tb # ''Unit'') # [tb # ''14'' @ tb # ''Z'']))"
    unfolding r by (elim exE conjE) simp
  then have "\<exists>t. parse_scan_header_table table_ragged = Inr t \<and> length t \<le> 2"
    unfolding m by (intro exI conjI)
  with e show ?thesis by (intro conjI)
qed

theorem ragged_table_parses:
  "parse_sxm_header dec_float dec_int header_ragged =
     Inr [(''acq_time'', FloatV 1), (''scan_pixels'', IntVec [2, 2]),
          (''scan_time'', FloatVec [1, 1]), (''scan_range'', FloatVec [1, 1]),
          (''scan_offset'', FloatVec [0, 0]), (''bias'', FloatV 1),
          (''data_info'', Table [(''Channel'', [''14'']), (''Name'', [''Z''])])]"
  by code_simp

section \<open>The samples\<close>

lemma length_fromfile_f4: "length (fromfile_f4 bs) = length bs div 4"
  by (induction bs rule: fromfile_f4.induct) simp_all

lemma reshape_dims_nonneg:
  "0 \<le> nx \<Longrightarrow> 0 \<le> ny \<Longrightarrow>
     reshape_dims n c d nx ny =
       (if c * d * nat nx * nat ny = n then Inr (nat nx, nat ny) else Inl (ValueError Reshape))"
  by (simp add: reshape_dims_def)

lemma load_data_cases:
  assumes "map_of hdr ''data_info'' = Some (Table t)" and "map_of t ''Name'' = Some channs"
    and "map_of hdr ''scan_pixels'' = Some (IntVec [nx, ny])" and "0 \<le> nx" and "0 \<le> ny"
    and "fs name = Some content"
  shows "load_data fs name hdr off =
     (if length (drop (nat off) content) div 4 = length channs * 2 * nat nx * nat ny
      then Inr (fold (\<lambda>(i, chann) data_dict.
                  AList.update chann
                    \<lparr>forward = reshape4 (fromfile_f4 (drop (nat off) content)) (length channs) 2 (nat nx) (nat ny) ! i ! 0,
                     backward = reshape4 (fromfile_f4 (drop (nat off) content)) (length channs) 2 (nat nx) (nat ny) ! i ! 1\<rparr>
                    data_dict)
                (enumerate 0 channs) [])
      else Inl (ValueError Reshape))"
  unfolding load_data_def
  by (simp add: assms reshape_dims_nonneg length_fromfile_f4 Let_def eq_commute)


lemma Scan_init_eval:
  assumes "last3 name = ''sxm''" and "start_byte fs name ''scan'' = Inr off"
    and "read_raw_header fs name off = Inr raw"
    and "parse_sxm_header to_float to_int raw = Inr hdr"
  shows "channel_grids (Scan_init to_float to_int fs name) chann =
     (case load_data fs name hdr (off + 4) of
        Inl e \<Rightarrow> Inl e
      | Inr sig \<Rightarrow> Inr (map_option (\<lambda>cd. (grid_values (forward cd), grid_values (backward cd)))
                        (map_of sig chann)))"
  by (simp add: Scan_init_def is_valid_file_def determine_filetype_def assms channel_grids_def
      split: sum.splits)

lemma parse_header_2x2:
  fixes to_float :: "string \<Rightarrow> 'f option"
  assumes "to_int ''2'' = Some 2" and "to_float ''0'' = Some a" and "to_float ''1'' = Some b"
  shows "parse_sxm_header to_float to_int header_2x2 =
     Inr [(''acq_time'', FloatV b), (''scan_pixels'', IntVec [2, 2]),
          (''scan_time'', FloatVec [b, b]), (''scan_range'', FloatVec [b, b]),
          (''scan_offset'', FloatVec [a, a]), (''bias'', FloatV b),
          (''data_info'', Table [(''Channel'', [''14'']), (''Name'', [''Z''])])]"
proof -
  have s0: "scan_sections (header_entries header_2x2) [] =
      Inr [(''acq_time'', Str ''1''), (''scan_pixels'', Str ''2 2''),
           (''scan_time'', Str ''1 1''), (''scan_range'', Str ''1 1''),
           (''scan_offset'', Str ''0 0''), (''bias'', Str ''1''),
           (''data_info'', Table [(''Channel'', [''14'']), (''Name'', [''Z''])]) :: string \<times> 'f hval]"
  proof -
    have e: "header_entries header_2x2 =
        ['':ACQ_TIME:'', ''1'', '':SCAN_PIXELS:'', ''2 2'', '':SCAN_TIME:'', ''1 1'',
         '':SCAN_RANGE:'', ''1 1'', '':SCAN_OFFSET:'', ''0 0'', '':BIAS:'', ''1'', '':DATA_INFO:'',
         tb # ''Channel'' @ tb # ''Name'', tb # ''14'' @ tb # ''Z'']"
      by code_simp
    have k: "section_key '':ACQ_TIME:'' = ''acq_time''" "section_key '':SCAN_PIXELS:'' = ''scan_pixels''"
      "section_key '':SCAN_TIME:'' = ''scan_time''" "section_key '':SCAN_RANGE:'' = ''scan_range''"
      "section_key '':SCAN_OFFSET:'' = ''scan_offset''" "section_key '':BIAS:'' = ''bias''"
      "section_key '':DATA_INFO:'' = ''data_info''"
      by code_simp+
    have v: "strip_by is_space_u ''1'' = ''1''" "strip_by is_space_u ''2 2'' = ''2 2''"
      "strip_by is_space_u ''1 1'' = ''1 1''" "strip_by is_space_u ''0 0'' = ''0 0''"
      by code_simp+
    have t: "parse_scan_header_table [tb # ''Channel'' @ tb # ''Name'', tb # ''14'' @ tb # ''Z'']
        = Inr [(''Channel'', [''14'']), (''Name'', [''Z''])]"
      by code_simp
    have c: "count_table_rows [tb # ''Channel'' @ tb # ''Name'', tb # ''14'' @ tb # ''Z''] 1 = Inr 3"
      by code_simp
    show ?thesis
      unfolding e by (simp add: k v t [simplified] c [simplified] startswith_colon_def)
  qed
  have w: "split_ws ''2 2'' = [''2'', ''2'']" "split_ws ''1 1'' = [''1'', ''1'']"
    "split_ws ''0 0'' = [''0'', ''0'']"
    by code_simp+
  have s1: "split_entries entries_to_be_split
          [(''acq_time'', Str ''1''), (''scan_pixels'', Str ''2 2''),
           (''scan_time'', Str ''1 1''), (''scan_range'', Str ''1 1''),
           (''scan_offset'', Str ''0 0''), (''bias'', Str ''1''),
           (''data_info'', Table [(''Channel'', [''14'']), (''Name'', [''Z''])]) :: string \<times> 'f hval] =
      Inr [(''acq_time'', Str ''1''), (''scan_pixels'', StrList [''2'', ''2'']),
           (''scan_time'', StrList [''1'', ''1'']), (''scan_range'', StrList [''1'', ''1'']),
           (''scan_offset'', StrList [''0'', ''0'']), (''bias'', Str ''1''),
           (''data_info'', Table [(''Channel'', [''14'']), (''Name'', [''Z''])])]"
    by (simp add: entries_to_be_split_def w)
  have s2: "float_entries to_float entries_to_be_floated
          [(''acq_time'', Str ''1''), (''scan_pixels'', StrList [''2'', ''2'']),
           (''scan_time'', StrList [''1'', ''1'']), (''scan_range'', StrList [''1'', ''1'']),
           (''scan_offset'', StrList [''0'', ''0'']), (''bias'', Str ''1''),
           (''data_info'', Table [(''Channel'', [''14'']), (''Name'', [''Z''])])] =
      Inr [(''acq_time'', FloatV b), (''scan_pixels'', StrList [''2'', ''2'']),
           (''scan_time'', FloatVec [b, b]), (''scan_range'', FloatVec [b, b]),
           (''scan_offset'', FloatVec [a, a]), (''bias'', FloatV b),
           (''data_info'', Table [(''Channel'', [''14'']), (''Name'', [''Z''])])]"
    by (simp add: entries_to_be_floated_def assms)
  have s3: "int_entries to_int entries_to_be_inted
          [(''acq_time'', FloatV b), (''scan_pixels'', StrList [''2'', ''2'']),
           (''scan_time'', FloatVec [b, b]), (''scan_range'', FloatVec [b, b]),
           (''scan_offset'', FloatVec [a, a]), (''bias'', FloatV b),
           (''data_info'', Table [(''Channel'', [''14'']), (''Name'', [''Z''])])] =
      Inr [(''acq_time'', FloatV b), (''scan_pixels'', IntVec [2, 2]),
           (''scan_time'', FloatVec [b, b]), (''scan_range'', FloatVec [b, b]),
           (''scan_offset'', FloatVec [a, a]), (''bias'', FloatV b),
           (''data_info'', Table [(''Channel'', [''14'']), (''Name'', [''Z''])])]"
    by (simp add: entries_to_be_inted_def assms)
  show ?thesis
    by (simp only: parse_sxm_header_def s0 s1 s2 s3 sum.case)
qed

lemma grids_of_12345678:
  "grid_values [[0x3F800000, 0x40000000], [0x40400000, 0x40800000]] = [[Some 1, Some 2], [Some 3, Some 4]]"
  "grid_values [[0x40A00000, 0x40C00000], [0x40E00000, 0x41000000]] = [[Some 5, Some 6], [Some 7, Some 8]]"
  by (simp_all add: grid_values_def f32_value_def)

lemma samples_12345678:
  "fromfile_f4 (payload_1234 @ payload_5678) =
     [0x3F800000, 0x40000000, 0x40400000, 0x40800000, 0x40A00000, 0x40C00000, 0x40E00000, 0x41000000]"
  by (simp add: payload_1234_def payload_5678_def payload_56_def payload_78_def be_word_def)

text \<open>
  Claim C1. The file whose header declares \<^verbatim>\<open>scan_pixels\<close> as \<^verbatim>\<open>2 2\<close> and the one channel
  \<^verbatim>\<open>Z\<close>, and whose 32 payload bytes are the big-endian binary32 values 1, 2, 3, 4 and then
  5, 6, 7, 8, decodes to the forward grid \<open>[[1, 2], [3, 4]]\<close> and the backward grid
  \<open>[[5, 6], [7, 8]]\<close> of channel \<^verbatim>\<open>Z\<close>, with any numeric conversion that reads the
  numerals of the header.
\<close>

theorem decode_2x2:
  fixes to_float :: "string \<Rightarrow> 'f option"
  assumes "to_int ''2'' = Some 2" and "to_float ''0'' \<noteq> None" and "to_float ''1'' \<noteq> None"
  shows "channel_grids (Scan_init to_float to_int (one_file ''scan.sxm'' file_2x2) ''scan.sxm'') ''Z''
     = Inr (Some ([[Some 1, Some 2], [Some 3, Some 4]], [[Some 5, Some 6], [Some 7, Some 8]]))"
proof -
  from assms(2,3) obtain a b where a: "to_float ''0'' = Some a" and b: "to_float ''1'' = Some b"
    by auto
  have n: "last3 ''scan.sxm'' = ''sxm''" by code_simp
  have o: "start_byte (one_file ''scan.sxm'' file_2x2) ''scan.sxm'' ''scan'' = Inr 137"
    by code_simp
  have r: "read_raw_header (one_file ''scan.sxm'' file_2x2) ''scan.sxm'' 137 = Inr header_2x2"
    by code_simp
  have d: "drop 141 file_2x2 = payload_1234 @ payload_5678" by code_simp
  have l: "load_data (one_file ''scan.sxm'' file_2x2) ''scan.sxm''
         [(''acq_time'', FloatV b), (''scan_pixels'', IntVec [2, 2]),
          (''scan_time'', FloatVec [b, b]), (''scan_range'', FloatVec [b, b]),
          (''scan_offset'', FloatVec [a, a]), (''bias'', FloatV b),
          (''data_info'', Table [(''Channel'', [''14'']), (''Name'', [''Z''])])] 141
      = Inr [(''Z'', \<lparr>forward = [[0x3F800000, 0x40000000], [0x40400000, 0x40800000]],
                      backward = [[0x40A00000, 0x40C00000], [0x40E00000, 0x41000000]]\<rparr>)]"
    by (simp add: load_data_def one_file_def d samples_12345678 reshape_dims_def reshape4_def
        upt_rec enumerate_eq_zip)
  show ?thesis
    using Scan_init_eval [OF n o r
        parse_header_2x2 [where to_float = to_float and to_int = to_int, OF assms(1) a b], of "''Z''"]
    by (simp add: l grids_of_12345678)
qed

theorem decode_2x2_witness:
  "channel_grids (Scan_init dec_float dec_int (one_file ''scan.sxm'' file_2x2) ''scan.sxm'') ''Z''
     = Inr (Some ([[Some 1, Some 2], [Some 3, Some 4]], [[Some 5, Some 6], [Some 7, Some 8]]))"
proof -
  have h1: "dec_int ''2'' = Some 2" by code_simp
  have h2: "dec_float ''0'' \<noteq> None" by code_simp
  have h3: "dec_float ''1'' \<noteq> None" by code_simp
  show ?thesis
    by (rule decode_2x2 [where to_float = dec_float and to_int = dec_int, OF h1 h2 h3])
qed

section \<open>The payload and its shape\<close>

lemma parsed_headers:
  "parse_sxm_header dec_float dec_int header_2x2 = Inr (parsed_header [2, 2])"
  "parse_sxm_header dec_float dec_int header_3x2 = Inr (parsed_header [3, 2])"
  by code_simp+

lemma parsed_header_lookups:
  "map_of (parsed_header px) ''data_info'' = Some (Table [(''Channel'', [''14'']), (''Name'', [''Z''])])"
  "map_of (parsed_header px) ''scan_pixels'' = Some (IntVec px)"
  by (simp_all add: parsed_header_def)




lemma load_data_eval:
  assumes "fromfile_f4 (drop 141 content) = xs" and "int (length xs) = 2 * nx * ny"
    and "0 \<le> nx" and "0 \<le> ny"
  shows "load_data (one_file ''scan.sxm'' content) ''scan.sxm'' (parsed_header [nx, ny]) (137 + 4) =
     Inr [(''Z'', \<lparr>forward = reshape4 xs (Suc 0) 2 (nat nx) (nat ny) ! 0 ! 0,
                    backward = reshape4 xs (Suc 0) 2 (nat nx) (nat ny) ! 0 ! Suc 0\<rparr>)]"
proof -
  have h2: "map_of [(''Channel'', [''14'']), (''Name'', [''Z''])] ''Name'' = Some [''Z'']" by simp
  have h6: "one_file ''scan.sxm'' content ''scan.sxm'' = Some content" by (simp add: one_file_def)
  have "int (length xs) = int (2 * nat nx * nat ny)"
    using assms(2,3,4) by simp
  then have "length xs = 2 * nat nx * nat ny"
    by (simp only: of_nat_eq_iff)
  then have "length (drop 141 content) div 4 = 2 * nat nx * nat ny"
    using assms(1) length_fromfile_f4 [of "drop 141 content"] by simp
  then show ?thesis
    using load_data_cases [where fs = "one_file ''scan.sxm'' content" and name = "''scan.sxm''"
        and content = content and off = "137 + 4" and hdr = "parsed_header [nx, ny]",
        OF parsed_header_lookups(1) h2 parsed_header_lookups(2) assms(3,4) h6]
    by (simp add: assms(1) enumerate_eq_zip)
qed


lemma reshape4_3x2:
  "reshape4 [a1, a2, a3, a4, a5, a6, b1, b2, b3, b4, b5, b6] (Suc 0) 2 3 2 =
     [[[[a1, a2], [a3, a4], [a5, a6]], [[b1, b2], [b3, b4], [b5, b6]]]]"
  by (simp add: reshape4_def upt_rec)



text \<open>
  Claim C2 against the code. The header of \<open>file_3x2\<close> declares \<^verbatim>\<open>scan_pixels\<close> as \<^verbatim>\<open>3 2\<close>:
  three columns and two rows. The decoded grids have three rows of two samples each, the
  extents in the order \<^verbatim>\<open>scan_pixels[0]\<close>, \<^verbatim>\<open>scan_pixels[1]\<close> that \<^verbatim>\<open>reshape\<close> is given,
  and not the two rows \<open>[1, 2, 3]\<close> and \<open>[4, 5, 6]\<close> of the scan.
\<close>

theorem decode_3x2_rows:
  "map_sum id (\<lambda>h. map_of h ''scan_pixels'') (parse_sxm_header dec_float dec_int header_3x2)
     = Inr (Some (IntVec [3, 2]))
   \<and> channel_grids (Scan_init dec_float dec_int (one_file ''scan.sxm'' file_3x2) ''scan.sxm'') ''Z''
     = Inr (Some ([[Some 1, Some 2], [Some 3, Some 4], [Some 5, Some 6]],
                  [[Some 1, Some 2], [Some 3, Some 4], [Some 5, Some 6]]))"
proof -
  have p: "map_sum id (\<lambda>h. map_of h ''scan_pixels'') (parse_sxm_header dec_float dec_int header_3x2)
     = Inr (Some (IntVec [3, 2]))"
    by (simp add: parsed_headers(2) parsed_header_lookups(2))
  have n: "last3 ''scan.sxm'' = ''sxm''" by code_simp
  have o: "start_byte (one_file ''scan.sxm'' file_3x2) ''scan.sxm'' ''scan'' = Inr 137"
    by code_simp
  have r: "read_raw_header (one_file ''scan.sxm'' file_3x2) ''scan.sxm'' 137 = Inr header_3x2"
    by code_simp
  have d: "drop 141 file_3x2 = (payload_1234 @ payload_56) @ (payload_1234 @ payload_56)"
    by code_simp
  have x: "fromfile_f4 (drop 141 file_3x2) =
     [0x3F800000, 0x40000000, 0x40400000, 0x40800000, 0x40A00000, 0x40C00000,
      0x3F800000, 0x40000000, 0x40400000, 0x40800000, 0x40A00000, 0x40C00000]"
    unfolding d by (simp add: payload_1234_def payload_56_def be_word_def)
  have l: "load_data (one_file ''scan.sxm'' file_3x2) ''scan.sxm'' (parsed_header [3, 2]) (137 + 4) =
      Inr [(''Z'', \<lparr>forward = [[0x3F800000, 0x40000000], [0x40400000, 0x40800000], [0x40A00000, 0x40C00000]],
                      backward = [[0x3F800000, 0x40000000], [0x40400000, 0x40800000], [0x40A00000, 0x40C00000]]\<rparr>)]"
    using load_data_eval [OF x, of 3 2] by (simp add: reshape4_3x2)
  have v: "grid_values [[0x3F800000, 0x40000000], [0x40400000, 0x40800000], [0x40A00000, 0x40C00000]]
      = [[Some 1, Some 2], [Some 3, Some 4], [Some 5, Some 6]]"
    by (simp add: grid_values_def f32_value_def)
  have g: "channel_grids (Scan_init dec_float dec_int (one_file ''scan.sxm'' file_3x2) ''scan.sxm'') ''Z''
     = Inr (Some ([[Some 1, Some 2], [Some 3, Some 4], [Some 5, Some 6]],
                  [[Some 1, Some 2], [Some 3, Some 4], [Some 5, Some 6]]))"
    unfolding Scan_init_eval [OF n o r parsed_headers(2), of "''Z''"] l
    by (simp add: v)
  from p g show ?thesis by (rule conjI)
qed

end
